theory Spec2Isabelle
  imports Main
begin

section \<open>Strings\<close>

text \<open>
  Python text is modelled as \<open>string\<close>; names and wire types are ASCII text. The helpers
  below are the string operations the generator uses: \<open>str(idx)\<close> on a positive integer,
  \<open>str.strip()\<close>, \<open>sep.join(xs)\<close>, \<open>startswith\<close> and \<open>endswith\<close>.
\<close>

abbreviation NL :: string where
  "NL \<equiv> [CHR 0x0A]"

definition digit_char :: "nat \<Rightarrow> char" where
  "digit_char d = ''0123456789'' ! d"

function str_nat :: "nat \<Rightarrow> string" where
  "str_nat n = (if n < 10 then [digit_char n] else str_nat (n div 10) @ [digit_char (n mod 10)])"
  by pat_completeness auto
termination
  by (relation "measure id") auto

declare str_nat.simps [simp del]

text \<open>The ASCII characters for which \<open>str.isspace()\<close> holds.\<close>

definition is_space :: "char \<Rightarrow> bool" where
  "is_space c = (c \<in> set [CHR 0x09, CHR 0x0A, CHR 0x0B, CHR 0x0C, CHR 0x0D,
                          CHR 0x1C, CHR 0x1D, CHR 0x1E, CHR 0x1F, CHR 0x20])"

definition strip :: "string \<Rightarrow> string" where
  "strip s = rev (dropWhile is_space (rev (dropWhile is_space s)))"

fun join :: "string \<Rightarrow> string list \<Rightarrow> string" where
  "join sep [] = []"
| "join sep [x] = x"
| "join sep (x # y # ys) = x @ sep @ join sep (y # ys)"

definition startswith :: "string \<Rightarrow> string \<Rightarrow> bool" where
  "startswith s p = (take (length p) s = p)"

definition endswith :: "string \<Rightarrow> string \<Rightarrow> bool" where
  "endswith s p = (length p \<le> length s \<and> drop (length s - length p) s = p)"

section \<open>Type objects\<close>

text \<open>
  The objects that can stand in a field annotation. The six scalars of the generator and
  \<open>type(None)\<close> are constants; \<open>PClass h\<close> is any other class object, identified by its
  handle \<open>h\<close> (two classes are the same object iff their handles are equal); \<open>PAlias\<close> is
  a generic alias with its \<open>__origin__\<close> and its \<open>__args__\<close> (\<open>None\<close> when the object has
  no \<open>__args__\<close> attribute, as the bare \<open>typing.List\<close> and \<open>typing.Dict\<close>);
  \<open>POther\<close> is any other object (a forward reference, a type variable, a string): it has
  no \<open>__origin__\<close> and is not a class.
\<close>

datatype origin = OUnion | OList | ODict | OOther

datatype pytype =
    PInt | PFloat | PStr | PBool | PBytes | PAny
  | PNoneType
  | PClass nat
  | PAlias origin "pytype list option"
  | POther

text \<open>
  What the predicates and the reflection calls of the source return on a class: its
  \<open>__name__\<close>, whether its \<open>__module__\<close> is \<open>builtins\<close>, the four convention tests, and
  the (name, type) items each extraction path reads, in the order the dictionary yields them.
\<close>

record pyclass =
  dunder_name :: string
  builtins_module :: bool
  pydantic_model :: bool
  dataclass :: bool
  attrs_class :: bool
  typed_dict :: bool
  type_hints :: "(string \<times> pytype) list"
  dataclass_fields :: "(string \<times> pytype) list"
  attr_fields :: "(string \<times> pytype) list"
  annotations :: "(string \<times> pytype) list"
  members :: "(string \<times> pytype) list"

type_synonym env = "nat \<Rightarrow> pyclass"

datatype pyerror = AttributeError | IndexError | ValueError

section \<open>Classifier, field extractor and type mapper\<close>

definition is_pydantic_model :: "pyclass \<Rightarrow> bool" where
  "is_pydantic_model cls = pydantic_model cls"

definition is_dataclass :: "pyclass \<Rightarrow> bool" where
  "is_dataclass cls = dataclass cls"

definition is_attrs_class :: "pyclass \<Rightarrow> bool" where
  "is_attrs_class cls = attrs_class cls"

definition is_typed_dict :: "pyclass \<Rightarrow> bool" where
  "is_typed_dict cls = typed_dict cls"

definition is_regular_class :: "pyclass \<Rightarrow> bool" where
  "is_regular_class cls =
     (\<not> builtins_module cls \<and>
      \<not> (is_pydantic_model cls \<or> is_dataclass cls \<or> is_attrs_class cls \<or> is_typed_dict cls))"

definition scalar_types :: "pytype list" where
  "scalar_types = [PInt, PFloat, PStr, PBool, PBytes, PAny]"

text \<open>
  \<open>is_model\<close>: the scalars are excluded first; a class is a model when one of the five
  tests holds; \<open>type(None)\<close> is a builtin class, and aliases and other objects are not
  classes and carry no convention marker.
\<close>

definition is_model :: "env \<Rightarrow> pytype \<Rightarrow> bool" where
  "is_model env cls =
     (if cls \<in> set scalar_types then False
      else (case cls of
              PClass h \<Rightarrow>
                is_pydantic_model (env h) \<or> is_dataclass (env h) \<or> is_attrs_class (env h) \<or>
                is_typed_dict (env h) \<or> is_regular_class (env h)
            | _ \<Rightarrow> False))"

definition is_dunder :: "string \<Rightarrow> bool" where
  "is_dunder name = (startswith name ''__'' \<and> endswith name ''__'')"

definition get_model_fields :: "pyclass \<Rightarrow> (string \<times> pytype) list" where
  "get_model_fields model =
     (if is_pydantic_model model then type_hints model
      else if is_dataclass model then dataclass_fields model
      else if is_attrs_class model then attr_fields model
      else if is_typed_dict model then annotations model
      else if is_regular_class model then filter (\<lambda>(name, ty). \<not> is_dunder name) (members model)
      else [])"

fun map_scalar_type :: "pytype \<Rightarrow> string" where
  "map_scalar_type PInt = ''int32''"
| "map_scalar_type PFloat = ''float''"
| "map_scalar_type PStr = ''string''"
| "map_scalar_type PBool = ''bool''"
| "map_scalar_type PBytes = ''bytes''"
| "map_scalar_type PAny = ''string''"
| "map_scalar_type _ = ''string''"

text \<open>\<open>py_type.__name__\<close>, read by the source only after \<open>is_model\<close> held.\<close>

definition type_name :: "env \<Rightarrow> pytype \<Rightarrow> string" where
  "type_name env py_type = (case py_type of PClass h \<Rightarrow> dunder_name (env h) | _ \<Rightarrow> [])"

definition map_type :: "env \<Rightarrow> pytype \<Rightarrow> string" where
  "map_type env py_type =
     (if py_type \<in> set scalar_types then map_scalar_type py_type
      else if is_model env py_type then type_name env py_type
      else ''string'')"

section \<open>Schema emitter\<close>

text \<open>
  The closure variables of \<open>pydantic_models_to_protos\<close>: \<open>visited_models\<close> is a
  reference \<open>vm\<close> to a set object, so the state holds the contents of every set object
  (\<open>cells\<close>, by address) and the list \<open>proto_messages\<close>.
\<close>

record pstate =
  cells :: "nat \<Rightarrow> nat set"
  proto_messages :: "string list"

text \<open>
  A run yields \<open>None\<close> when the recursion bound of the model is used up (the bound is
  an artefact of the model), \<open>Some (Inl e)\<close> when the source raises \<open>e\<close>, and
  \<open>Some (Inr x)\<close> when it returns.
\<close>

type_synonym 'a result = "(pyerror + 'a) option"

definition getattr_origin :: "pytype \<Rightarrow> origin option" where
  "getattr_origin t = (case t of PAlias orig args \<Rightarrow> Some orig | _ \<Rightarrow> None)"

definition dunder_args :: "pytype \<Rightarrow> pyerror + pytype list" where
  "dunder_args t = (case t of PAlias orig (Some args) \<Rightarrow> Inr args | _ \<Rightarrow> Inl AttributeError)"

text \<open>
  The shape analysis at the head of the loop body (the \<open>if\<close>/\<open>elif\<close>/\<open>elif\<close> chain): a
  map field with its key and value types, or a plain field with the flags \<open>repeated\<close> and
  \<open>optional\<close> and the effective field type.
\<close>

datatype resolved = MapField pytype pytype | PlainField bool bool pytype

definition resolve_field :: "pytype \<Rightarrow> pyerror + resolved" where
  "resolve_field field_type =
     (if getattr_origin field_type = Some OUnion then
        (case dunder_args field_type of
           Inl e \<Rightarrow> Inl e
         | Inr args \<Rightarrow>
             if PNoneType \<in> set args then
               (let args' = filter (\<lambda>arg. arg \<noteq> PNoneType) args
                in Inr (PlainField False True (if args' \<noteq> [] then hd args' else PAny)))
             else Inr (PlainField False False field_type))
      else if getattr_origin field_type = Some OList then
        (case dunder_args field_type of
           Inl e \<Rightarrow> Inl e
         | Inr args \<Rightarrow>
             (case args of [] \<Rightarrow> Inl IndexError | a # _ \<Rightarrow> Inr (PlainField True False a)))
      else if getattr_origin field_type = Some ODict then
        (case dunder_args field_type of
           Inl e \<Rightarrow> Inl e
         | Inr args \<Rightarrow>
             (case (if args \<noteq> [] then args else [PAny, PAny]) of
                [key_type, value_type] \<Rightarrow> Inr (MapField key_type value_type)
              | _ \<Rightarrow> Inl ValueError))
      else Inr (PlainField False False field_type))"

text \<open>The type tested with \<open>is_model\<close>: the value type of a map, the field type otherwise.\<close>

fun nested_type :: "resolved \<Rightarrow> pytype" where
  "nested_type (MapField key_type value_type) = value_type"
| "nested_type (PlainField repeated optional field_type) = field_type"

definition key_type_name :: "pytype \<Rightarrow> string" where
  "key_type_name key_type =
     (if key_type \<in> set [PInt, PFloat, PStr, PBool] then map_scalar_type key_type else ''string'')"

text \<open>\<open>value_type_name\<close> and \<open>field_type_name\<close>: both branches of the \<open>is_model\<close> test.\<close>

definition nested_type_name :: "env \<Rightarrow> pytype \<Rightarrow> string" where
  "nested_type_name env t = (if is_model env t then type_name env t else map_type env t)"

fun field_line :: "env \<Rightarrow> string \<Rightarrow> resolved \<Rightarrow> nat \<Rightarrow> string" where
  "field_line env field_name (MapField key_type value_type) idx =
     ''map<'' @ key_type_name key_type @ '', '' @ nested_type_name env value_type @ ''> '' @
     field_name @ '' = '' @ str_nat idx @ '';''"
| "field_line env field_name (PlainField repeated optional field_type) idx =
     strip ((if repeated then ''repeated'' else []) @ '' '' @ nested_type_name env field_type @
            '' '' @ field_name @ '' = '' @ str_nat idx @ '';'')"

text \<open>
  The recursive call \<open>parse_model(t, t.__name__)\<close> of the loop body, made when
  \<open>is_model t\<close> holds (then \<open>t\<close> is a class).
\<close>

definition parse_nested ::
  "(nat \<Rightarrow> string \<Rightarrow> pstate \<Rightarrow> pstate result) \<Rightarrow> env \<Rightarrow> pytype \<Rightarrow> pstate \<Rightarrow> pstate result" where
  "parse_nested rec env t st =
     (if is_model env t then
        (case t of PClass h \<Rightarrow> rec h (type_name env t) st | _ \<Rightarrow> Some (Inr st))
      else Some (Inr st))"

text \<open>The \<open>for\<close> loop over \<open>type_hints.items()\<close>, with the locals \<open>fields\<close> (here \<open>lines\<close>) and \<open>idx\<close>.\<close>

fun fields_loop ::
  "(nat \<Rightarrow> string \<Rightarrow> pstate \<Rightarrow> pstate result) \<Rightarrow> env \<Rightarrow> (string \<times> pytype) list \<Rightarrow>
   pstate \<Rightarrow> string list \<Rightarrow> nat \<Rightarrow> (pstate \<times> string list \<times> nat) result" where
  "fields_loop rec env [] st lines idx = Some (Inr (st, lines, idx))"
| "fields_loop rec env ((field_name, field_type) # rest) st lines idx =
     (case resolve_field field_type of
        Inl e \<Rightarrow> Some (Inl e)
      | Inr r \<Rightarrow>
          (case parse_nested rec env (nested_type r) st of
             None \<Rightarrow> None
           | Some (Inl e) \<Rightarrow> Some (Inl e)
           | Some (Inr st') \<Rightarrow>
               fields_loop rec env rest st' (lines @ [field_line env field_name r idx]) (idx + 1)))"

definition build_message :: "string \<Rightarrow> string list \<Rightarrow> string" where
  "build_message message_name lines =
     foldl (\<lambda>message field. message @ ''    '' @ field @ '';'' @ NL)
       (''message '' @ message_name @ '' {'' @ NL) lines @ ''}'' @ NL"

primrec parse_model ::
  "nat \<Rightarrow> env \<Rightarrow> nat \<Rightarrow> nat \<Rightarrow> string \<Rightarrow> pstate \<Rightarrow> pstate result" where
  "parse_model 0 env vm model message_name st = None"
| "parse_model (Suc n) env vm model message_name st =
     (if model \<in> cells st vm then Some (Inr st)
      else
        (case fields_loop (parse_model n env vm) env (get_model_fields (env model))
                (st\<lparr>cells := (cells st)(vm := insert model (cells st vm))\<rparr>) [] 1 of
           None \<Rightarrow> None
         | Some (Inl e) \<Rightarrow> Some (Inl e)
         | Some (Inr (st', lines, idx)) \<Rightarrow>
             Some (Inr (st'\<lparr>proto_messages :=
                          proto_messages st' @ [build_message message_name lines]\<rparr>))))"

section \<open>Orchestrator\<close>

text \<open>
  The caller's heap: the contents of the set objects and the next free address.
  \<open>already_visited\<close> is \<open>None\<close> or a reference to a set object; \<open>already_visited or set()\<close>
  keeps the reference when that set is non-empty and allocates a new empty set otherwise.
\<close>

record heap =
  objs :: "nat \<Rightarrow> nat set"
  next_ref :: nat

definition new_set :: "heap \<Rightarrow> nat \<times> heap" where
  "new_set hp = (next_ref hp, hp\<lparr>objs := (objs hp)(next_ref hp := {}), next_ref := Suc (next_ref hp)\<rparr>)"

definition or_set :: "nat option \<Rightarrow> heap \<Rightarrow> nat \<times> heap" where
  "or_set already_visited hp =
     (case already_visited of
        None \<Rightarrow> new_set hp
      | Some a \<Rightarrow> if objs hp a \<noteq> {} then (a, hp) else new_set hp)"

fun models_loop :: "nat \<Rightarrow> env \<Rightarrow> nat \<Rightarrow> nat list \<Rightarrow> pstate \<Rightarrow> pstate result" where
  "models_loop fuel env vm [] st = Some (Inr st)"
| "models_loop fuel env vm (model # rest) st =
     (case parse_model fuel env vm model (dunder_name (env model)) st of
        None \<Rightarrow> None
      | Some (Inl e) \<Rightarrow> Some (Inl e)
      | Some (Inr st') \<Rightarrow> models_loop fuel env vm rest st')"

definition pydantic_models_to_protos ::
  "nat \<Rightarrow> env \<Rightarrow> nat list \<Rightarrow> nat option \<Rightarrow> heap \<Rightarrow> (string \<times> heap) result" where
  "pydantic_models_to_protos fuel env models already_visited hp =
     (let (visited_models, hp1) = or_set already_visited hp
      in case models_loop fuel env visited_models models \<lparr>cells = objs hp1, proto_messages = []\<rparr> of
           None \<Rightarrow> None
         | Some (Inl e) \<Rightarrow> Some (Inl e)
         | Some (Inr st) \<Rightarrow>
             Some (Inr (join NL (rev (proto_messages st)), hp1\<lparr>objs := cells st\<rparr>)))"

section \<open>The text of a message, without the traversal\<close>

text \<open>
  The field lines of a class depend on its field list only, not on the visited set:
  \<open>render_fields\<close> is the loop of \<open>parse_model\<close> without the recursive calls, and
  \<open>message_text\<close> is the message that \<open>parse_model\<close> appends for a class under its own
  name (\<open>None\<close> when a field of the class makes the loop raise).
\<close>

fun render_fields :: "env \<Rightarrow> (string \<times> pytype) list \<Rightarrow> nat \<Rightarrow> pyerror + string list" where
  "render_fields env [] idx = Inr []"
| "render_fields env ((field_name, field_type) # rest) idx =
     (case resolve_field field_type of
        Inl e \<Rightarrow> Inl e
      | Inr r \<Rightarrow>
          (case render_fields env rest (idx + 1) of
             Inl e \<Rightarrow> Inl e
           | Inr ls \<Rightarrow> Inr (field_line env field_name r idx # ls)))"

definition message_text :: "env \<Rightarrow> nat \<Rightarrow> string option" where
  "message_text env h =
     (case render_fields env (get_model_fields (env h)) 1 of
        Inl e \<Rightarrow> None
      | Inr ls \<Rightarrow> Some (build_message (dunder_name (env h)) ls))"

text \<open>
  \<open>emitted env vm st st' hs\<close>: from \<open>st\<close> to \<open>st'\<close> exactly the classes \<open>hs\<close>, none
  visited before and none twice, were added to the set at \<open>vm\<close>, no other set object
  changed, and their messages were appended in this order.
\<close>

definition emitted :: "env \<Rightarrow> nat \<Rightarrow> pstate \<Rightarrow> pstate \<Rightarrow> nat list \<Rightarrow> bool" where
  "emitted env vm st st' hs =
     (distinct hs \<and> set hs \<inter> cells st vm = {} \<and>
      cells st' = (cells st)(vm := cells st vm \<union> set hs) \<and>
      map Some (proto_messages st') = map Some (proto_messages st) @ map (message_text env) hs)"

text \<open>
  The class on which the loop body calls \<open>parse_model\<close> for one field (none when the
  nested type is not a model), and the classes so called over the fields of \<open>h\<close>.
\<close>

definition nested_of :: "env \<Rightarrow> pytype \<Rightarrow> nat list" where
  "nested_of env field_type =
     (case resolve_field field_type of
        Inl e \<Rightarrow> []
      | Inr r \<Rightarrow>
          (if is_model env (nested_type r)
           then (case nested_type r of PClass h' \<Rightarrow> [h'] | _ \<Rightarrow> []) else []))"

definition nested_models :: "env \<Rightarrow> nat \<Rightarrow> nat list" where
  "nested_models env h = concat (map (\<lambda>(field_name, field_type). nested_of env field_type)
                                     (get_model_fields (env h)))"

definition initial_visited :: "nat option \<Rightarrow> heap \<Rightarrow> nat set" where
  "initial_visited already_visited hp = (case already_visited of None \<Rightarrow> {} | Some a \<Rightarrow> objs hp a)"

text \<open>What the lemmas on the loop assume of the recursive call they are given.\<close>

definition rec_ok :: "env \<Rightarrow> nat \<Rightarrow> (nat \<Rightarrow> string \<Rightarrow> pstate \<Rightarrow> pstate result) \<Rightarrow> bool" where
  "rec_ok env vm rec =
     (\<forall>h st st'. rec h (dunder_name (env h)) st = Some (Inr st') \<longrightarrow>
        (\<exists>hs. emitted env vm st st' hs \<and> h \<in> cells st' vm))"

definition rec_total ::
  "env \<Rightarrow> nat \<Rightarrow> nat set \<Rightarrow> nat \<Rightarrow> (nat \<Rightarrow> string \<Rightarrow> pstate \<Rightarrow> pstate result) \<Rightarrow> bool" where
  "rec_total env vm U n rec =
     (\<forall>h st. h \<in> U \<longrightarrow> card (U - cells st vm) < n \<longrightarrow>
        (\<exists>r. rec h (dunder_name (env h)) st = Some r \<and>
             (\<forall>st'. r = Inr st' \<longrightarrow> cells st vm \<subseteq> cells st' vm)))"

section \<open>Example declarations\<close>

text \<open>
  The classes of the scenarios, as the reflection calls see them: a validated record
  (\<open>BaseModel\<close> subclass) read through \<open>get_type_hints\<close>, a \<open>@dataclass\<close> read through
  \<open>dataclasses.fields\<close>, and a builtin class, which no convention recognises.
\<close>

definition pydantic_class :: "string \<Rightarrow> (string \<times> pytype) list \<Rightarrow> pyclass" where
  "pydantic_class name hints =
     \<lparr>dunder_name = name, builtins_module = False, pydantic_model = True, dataclass = False,
      attrs_class = False, typed_dict = False, type_hints = hints, dataclass_fields = [],
      attr_fields = [], annotations = hints, members = []\<rparr>"

definition dataclass_class :: "string \<Rightarrow> (string \<times> pytype) list \<Rightarrow> pyclass" where
  "dataclass_class name flds =
     \<lparr>dunder_name = name, builtins_module = False, pydantic_model = False, dataclass = True,
      attrs_class = False, typed_dict = False, type_hints = flds, dataclass_fields = flds,
      attr_fields = [], annotations = flds, members = []\<rparr>"

definition builtin_class :: "string \<Rightarrow> pyclass" where
  "builtin_class name =
     \<lparr>dunder_name = name, builtins_module = True, pydantic_model = False, dataclass = False,
      attrs_class = False, typed_dict = False, type_hints = [], dataclass_fields = [],
      attr_fields = [], annotations = [], members = []\<rparr>"

text \<open>
  \<^item> 0: the dataclass \<open>Point\<close> with \<open>x: int\<close>, \<open>y: int\<close>;
  \<^item> 1: the validated record \<open>Node\<close> with \<open>value: int\<close>,
    \<open>children: Optional[List[Node]]\<close> (the type hints resolve \<open>Node\<close> to the class);
  \<^item> 2: the dataclass \<open>Box\<close> with \<open>items: Dict[str, Item]\<close>;
  \<^item> 3: the dataclass \<open>Item\<close> with \<open>name: str\<close>;
  \<^item> 4: the validated record \<open>Tree\<close> with \<open>value: int\<close>, \<open>children: List[Tree]\<close>;
  \<^item> 5: the dataclass \<open>Blobs\<close> with \<open>data: Dict[bytes, str]\<close>;
  \<^item> 6: the dataclass \<open>Bag\<close> with \<open>xs: List\<close> (the bare \<open>typing.List\<close>);
  \<^item> 7: the dataclass \<open>Sack\<close> with \<open>xs: list[()]\<close> (an alias of \<open>list\<close> with no
    parameter);
  \<^item> every other handle: the builtin class \<open>object\<close>.
\<close>

definition example_env :: env where
  "example_env h =
     (if h = 0 then dataclass_class ''Point'' [(''x'', PInt), (''y'', PInt)]
      else if h = 1 then pydantic_class ''Node''
             [(''value'', PInt),
              (''children'', PAlias OUnion (Some [PAlias OList (Some [PClass 1]), PNoneType]))]
      else if h = 2 then dataclass_class ''Box''
             [(''items'', PAlias ODict (Some [PStr, PClass 3]))]
      else if h = 3 then dataclass_class ''Item'' [(''name'', PStr)]
      else if h = 4 then pydantic_class ''Tree''
             [(''value'', PInt), (''children'', PAlias OList (Some [PClass 4]))]
      else if h = 5 then dataclass_class ''Blobs''
             [(''data'', PAlias ODict (Some [PBytes, PStr]))]
      else if h = 6 then dataclass_class ''Bag'' [(''xs'', PAlias OList None)]
      else if h = 7 then dataclass_class ''Sack'' [(''xs'', PAlias OList (Some []))]
      else builtin_class ''object'')"

definition heap0 :: heap where
  "heap0 = \<lparr>objs = (\<lambda>a. {}), next_ref = 0\<rparr>"

text \<open>A heap with one set object, at address 0, holding the class 3 (\<open>Item\<close>).\<close>

definition heap1 :: heap where
  "heap1 = \<lparr>objs = (\<lambda>a. if a = 0 then {3} else {}), next_ref = 1\<rparr>"

text \<open>A heap with one set object, at address 0, which is empty.\<close>

definition heap2 :: heap where
  "heap2 = \<lparr>objs = (\<lambda>a. {}), next_ref = 1\<rparr>"

text \<open>The state of a call before its first \<open>parse_model\<close>: no set object holds a class.\<close>

definition state0 :: pstate where
  "state0 = \<lparr>cells = (\<lambda>a. {}), proto_messages = []\<rparr>"

text \<open>The state after \<open>Point\<close> was parsed from \<open>state0\<close> with the visited set at address 0.\<close>

definition point_state :: pstate where
  "point_state =
     \<lparr>cells = (\<lambda>a. {})(0 := {0}),
      proto_messages = [''message Point {'' @ NL @ ''    int32 x = 1;;'' @ NL @
                        ''    int32 y = 2;;'' @ NL @ ''}'' @ NL]\<rparr>"

text \<open>A recursive call that adds classes of \<open>U\<close> only to the visited set.\<close>

definition rec_within ::
  "env \<Rightarrow> nat \<Rightarrow> nat set \<Rightarrow> (nat \<Rightarrow> string \<Rightarrow> pstate \<Rightarrow> pstate result) \<Rightarrow> bool" where
  "rec_within env vm U rec =
     (\<forall>h st st'. h \<in> U \<longrightarrow> rec h (dunder_name (env h)) st = Some (Inr st') \<longrightarrow>
        cells st' vm \<subseteq> cells st vm \<union> U)"

text \<open>
  The text returned for \<open>Tree\<close>, the state after \<open>Tree\<close> was parsed from \<open>state0\<close>, and the
  state after \<open>Box\<close> was parsed from \<open>state0\<close> (the visited set at address 0).
\<close>

definition tree_text :: string where
  "tree_text = ''message Tree {'' @ NL @ ''    int32 value = 1;;'' @ NL @
               ''    repeated Tree children = 2;;'' @ NL @ ''}'' @ NL"

definition tree_state :: pstate where
  "tree_state = \<lparr>cells = (\<lambda>a. {})(0 := {4}), proto_messages = [tree_text]\<rparr>"

definition box_state :: pstate where
  "box_state =
     \<lparr>cells = (\<lambda>a. {})(0 := {2, 3}),
      proto_messages =
        [''message Item {'' @ NL @ ''    string name = 1;;'' @ NL @ ''}'' @ NL,
         ''message Box {'' @ NL @ ''    map<string, Item> items = 1;;'' @ NL @ ''}'' @ NL]\<rparr>"

section \<open>Field lines and field numbers\<close>

lemma strip_keeps_suffix:
  assumes "b \<noteq> []" "\<not> is_space (hd b)" "\<not> is_space (last b)"
  shows "\<exists>body. strip (a @ b) = body @ b"
proof -
  have 1: "dropWhile is_space (a @ b) = dropWhile is_space a @ b"
    using assms by (cases b) (auto simp: dropWhile_append)
  have 2: "dropWhile is_space (rev b @ rev (dropWhile is_space a)) = rev b @ rev (dropWhile is_space a)"
    using assms by (cases "rev b") (auto simp: last_rev hd_rev)
  show ?thesis unfolding strip_def 1 by (simp add: 2)
qed

lemma str_nat_nonempty: "str_nat n \<noteq> []"
  by (subst str_nat.simps) simp

lemma field_line_index:
  "\<exists>body. field_line env field_name r idx = body @ ''= '' @ str_nat idx @ '';''"
proof (cases r)
  case (MapField k v)
  then show ?thesis by simp
next
  case (PlainField rep opt t)
  have "\<exists>body. strip (((if rep then ''repeated'' else []) @ '' '' @ nested_type_name env t @ '' '' @ field_name @ '' '') @ (''= '' @ str_nat idx @ '';'')) = body @ (''= '' @ str_nat idx @ '';'')"
    by (rule strip_keeps_suffix) (simp_all add: is_space_def)
  then show ?thesis using PlainField by simp
qed

lemma fields_loop_lines:
  "fields_loop rec env fs st lines idx = Some (Inr (st', lines', idx')) \<Longrightarrow>
   \<exists>ls. render_fields env fs idx = Inr ls \<and> lines' = lines @ ls \<and> idx' = idx + length fs"
proof (induction fs arbitrary: st lines idx)
  case Nil
  then show ?case by simp
next
  case (Cons f fs)
  obtain fn ft where f: "f = (fn, ft)" by (cases f)
  from Cons.prems f obtain r st1 where r: "resolve_field ft = Inr r"
    and rest: "fields_loop rec env fs st1 (lines @ [field_line env fn r idx]) (idx + 1) = Some (Inr (st', lines', idx'))"
    by (auto split: sum.splits option.splits)
  from Cons.IH[OF rest] obtain ls where "render_fields env fs (idx + 1) = Inr ls"
    "lines' = (lines @ [field_line env fn r idx]) @ ls" "idx' = idx + 1 + length fs" by blast
  then show ?case using f r by simp
qed

lemma render_fields_nth:
  "render_fields env fs idx = Inr ls \<Longrightarrow>
   length ls = length fs \<and>
   (\<forall>i<length fs. \<exists>r. resolve_field (snd (fs ! i)) = Inr r \<and>
        ls ! i = field_line env (fst (fs ! i)) r (idx + i))"
proof (induction fs arbitrary: idx ls)
  case Nil
  then show ?case by simp
next
  case (Cons f fs)
  obtain fn ft where f: "f = (fn, ft)" by (cases f)
  from Cons.prems f obtain r ls' where r: "resolve_field ft = Inr r"
    and rest: "render_fields env fs (idx + 1) = Inr ls'" and ls: "ls = field_line env fn r idx # ls'"
    by (auto split: sum.splits)
  from Cons.IH[OF rest] have len: "length ls' = length fs"
    and nth: "\<And>i. i < length fs \<Longrightarrow> \<exists>r. resolve_field (snd (fs ! i)) = Inr r \<and>
        ls' ! i = field_line env (fst (fs ! i)) r (idx + 1 + i)" by auto
  show ?case
  proof (intro conjI allI impI)
    show "length ls = length (f # fs)" using len ls by simp
  next
    fix i assume i: "i < length (f # fs)"
    show "\<exists>r. resolve_field (snd ((f # fs) ! i)) = Inr r \<and>
        ls ! i = field_line env (fst ((f # fs) ! i)) r (idx + i)"
    proof (cases i)
      case 0
      then show ?thesis using f r ls by simp
    next
      case (Suc j)
      then have "j < length fs" using i by simp
      from nth[OF this] show ?thesis using Suc ls by simp
    qed
  qed
qed

section \<open>What a successful run emits\<close>

lemma emitted_refl: "emitted env vm st st []"
  by (simp add: emitted_def)

lemma emitted_trans:
  assumes "emitted env vm st st1 hs1" "emitted env vm st1 st2 hs2"
  shows "emitted env vm st st2 (hs1 @ hs2)"
proof -
  from assms have c1: "cells st1 = (cells st)(vm := cells st vm \<union> set hs1)"
    and c2: "cells st2 = (cells st1)(vm := cells st1 vm \<union> set hs2)"
    by (simp_all add: emitted_def)
  have v1: "cells st1 vm = cells st vm \<union> set hs1" using c1 by simp
  have d: "distinct (hs1 @ hs2)" using assms v1 by (auto simp: emitted_def)
  have i: "set (hs1 @ hs2) \<inter> cells st vm = {}" using assms v1 by (auto simp: emitted_def)
  have c: "cells st2 = (cells st)(vm := cells st vm \<union> set (hs1 @ hs2))"
    using c1 c2 by (auto simp: fun_eq_iff)
  have m: "map Some (proto_messages st2) = map Some (proto_messages st) @ map (message_text env) (hs1 @ hs2)"
    using assms by (simp add: emitted_def)
  show ?thesis using d i c m by (simp add: emitted_def)
qed

lemma emitted_visited: "emitted env vm st st' hs \<Longrightarrow> cells st' vm = cells st vm \<union> set hs"
  by (simp add: emitted_def)

lemma is_model_class: "is_model env t \<Longrightarrow> \<exists>h. t = PClass h"
  by (cases t) (auto simp: is_model_def split: if_splits)

lemma parse_nested_emitted:
  assumes "rec_ok env vm rec" "parse_nested rec env t st = Some (Inr st')"
  shows "\<exists>hs. emitted env vm st st' hs \<and> (\<forall>h. is_model env t \<and> t = PClass h \<longrightarrow> h \<in> cells st' vm)"
proof (cases "is_model env t")
  case True
  then obtain h where t: "t = PClass h" using is_model_class by blast
  with True assms(2) have "rec h (dunder_name (env h)) st = Some (Inr st')"
    by (simp add: parse_nested_def type_name_def)
  with assms(1) obtain hs where "emitted env vm st st' hs" "h \<in> cells st' vm"
    unfolding rec_ok_def by blast
  then show ?thesis using t by auto
next
  case False
  with assms(2) have "st' = st" by (simp add: parse_nested_def)
  then show ?thesis using False emitted_refl by auto
qed

lemma fields_loop_emitted:
  assumes "rec_ok env vm rec"
  shows "fields_loop rec env fs st lines idx = Some (Inr (st', lines', idx')) \<Longrightarrow>
         \<exists>hs. emitted env vm st st' hs \<and>
              (\<forall>f \<in> set fs. set (nested_of env (snd f)) \<subseteq> cells st' vm)"
proof (induction fs arbitrary: st lines idx)
  case Nil
  then show ?case by (auto intro: emitted_refl)
next
  case (Cons f fs)
  obtain fn ft where f: "f = (fn, ft)" by (cases f)
  from Cons.prems f obtain r st1 where r: "resolve_field ft = Inr r"
    and nested: "parse_nested rec env (nested_type r) st = Some (Inr st1)"
    and rest: "fields_loop rec env fs st1 (lines @ [field_line env fn r idx]) (idx + 1) = Some (Inr (st', lines', idx'))"
    by (auto split: sum.splits option.splits)
  from parse_nested_emitted[OF assms nested] obtain hs1 where
    e1: "emitted env vm st st1 hs1" and
    v1: "\<forall>h. is_model env (nested_type r) \<and> nested_type r = PClass h \<longrightarrow> h \<in> cells st1 vm"
    by blast
  from Cons.IH[OF rest] obtain hs2 where e2: "emitted env vm st1 st' hs2"
    and v2: "\<forall>f \<in> set fs. set (nested_of env (snd f)) \<subseteq> cells st' vm" by blast
  have mono: "cells st1 vm \<subseteq> cells st' vm" using emitted_visited[OF e2] by simp
  have e: "emitted env vm st st' (hs1 @ hs2)" using emitted_trans[OF e1 e2] .
  have "set (nested_of env ft) \<subseteq> cells st1 vm"
  proof (cases "is_model env (nested_type r)")
    case True
    then obtain h where "nested_type r = PClass h" using is_model_class by blast
    then show ?thesis using True v1 r by (simp add: nested_of_def)
  next
    case False
    then show ?thesis using r by (simp add: nested_of_def)
  qed
  with mono have "set (nested_of env (snd f)) \<subseteq> cells st' vm" using f by auto
  with v2 have "\<forall>g \<in> set (f # fs). set (nested_of env (snd g)) \<subseteq> cells st' vm" by simp
  with e show ?case by blast
qed

lemma build_message_text:
  "render_fields env (get_model_fields (env m)) 1 = Inr ls \<Longrightarrow>
   message_text env m = Some (build_message (dunder_name (env m)) ls)"
  by (simp add: message_text_def)

lemma parse_model_emitted:
  "parse_model n env vm m (dunder_name (env m)) st = Some (Inr st') \<Longrightarrow>
   \<exists>hs. emitted env vm st st' hs \<and> m \<in> cells st' vm \<and>
        (if m \<in> cells st vm then hs = []
         else hs \<noteq> [] \<and> last hs = m \<and> set (nested_models env m) \<subseteq> cells st vm \<union> set hs)"
proof (induction n arbitrary: m st st')
  case 0
  then show ?case by simp
next
  case (Suc n)
  show ?case
  proof (cases "m \<in> cells st vm")
    case True
    with Suc.prems have "st' = st" by simp
    with True have "emitted env vm st st' [] \<and> m \<in> cells st' vm" using emitted_refl by simp
    with True show ?thesis by auto
  next
    case False
    define st1 where "st1 = st\<lparr>cells := (cells st)(vm := insert m (cells st vm))\<rparr>"
    from Suc.prems False obtain st2 ls idx' where
      loop: "fields_loop (parse_model n env vm) env (get_model_fields (env m)) st1 [] 1 = Some (Inr (st2, ls, idx'))"
      and st': "st' = st2\<lparr>proto_messages := proto_messages st2 @ [build_message (dunder_name (env m)) ls]\<rparr>"
      by (auto simp: st1_def split: option.splits sum.splits)
    have rec: "rec_ok env vm (parse_model n env vm)"
      unfolding rec_ok_def using Suc.IH by blast
    from fields_loop_emitted[OF rec loop] obtain hs where e: "emitted env vm st1 st2 hs"
      and vis0: "\<forall>f \<in> set (get_model_fields (env m)). set (nested_of env (snd f)) \<subseteq> cells st2 vm"
      by blast
    have vis: "set (nested_models env m) \<subseteq> cells st2 vm"
      using vis0 by (fastforce simp: nested_models_def)
    from fields_loop_lines[OF loop] have r: "render_fields env (get_model_fields (env m)) 1 = Inr ls" by simp
    have v1: "cells st1 vm = insert m (cells st vm)" by (simp add: st1_def)
    have mt: "message_text env m = Some (build_message (dunder_name (env m)) ls)"
      using build_message_text[OF r] .
    have d: "distinct (hs @ [m])" using e v1 by (auto simp: emitted_def)
    have i: "set (hs @ [m]) \<inter> cells st vm = {}" using e v1 False by (auto simp: emitted_def)
    have c: "cells st' = (cells st)(vm := cells st vm \<union> set (hs @ [m]))"
      using e st' by (auto simp: emitted_def st1_def fun_eq_iff)
    have ms: "map Some (proto_messages st') = map Some (proto_messages st) @ map (message_text env) (hs @ [m])"
      using e st' mt by (simp add: emitted_def st1_def)
    have em: "emitted env vm st st' (hs @ [m])" using d i c ms by (simp add: emitted_def)
    have "cells st2 vm = insert m (cells st vm) \<union> set hs" using emitted_visited[OF e] v1 by simp
    with vis have "set (nested_models env m) \<subseteq> cells st vm \<union> set (hs @ [m])" by auto
    moreover have "m \<in> cells st' vm" using c by simp
    ultimately have "emitted env vm st st' (hs @ [m]) \<and> m \<in> cells st' vm \<and>
        (hs @ [m]) \<noteq> [] \<and> last (hs @ [m]) = m \<and>
        set (nested_models env m) \<subseteq> cells st vm \<union> set (hs @ [m])"
      using em by simp
    with False show ?thesis by (metis (full_types))
  qed
qed

section \<open>A larger recursion bound gives the same result\<close>

lemma parse_nested_mono:
  assumes ext: "\<And>h name st r. rec h name st = Some r \<Longrightarrow> rec' h name st = Some r"
  shows "parse_nested rec env t st = Some r \<Longrightarrow> parse_nested rec' env t st = Some r"
  using ext by (auto simp: parse_nested_def split: pytype.splits if_splits)

lemma fields_loop_mono:
  assumes ext: "\<And>h name st r. rec h name st = Some r \<Longrightarrow> rec' h name st = Some r"
  shows "fields_loop rec env fs st lines idx = Some res \<Longrightarrow>
         fields_loop rec' env fs st lines idx = Some res"
proof (induction fs arbitrary: st lines idx)
  case Nil
  then show ?case by simp
next
  case (Cons f fs)
  obtain fn ft where f: "f = (fn, ft)" by (cases f)
  show ?case
  proof (cases "resolve_field ft")
    case (Inl e)
    with Cons.prems f show ?thesis by simp
  next
    case (Inr r)
    with Cons.prems f obtain r1 where n1: "parse_nested rec env (nested_type r) st = Some r1"
      by (auto split: option.splits)
    have n2: "parse_nested rec' env (nested_type r) st = Some r1"
      using parse_nested_mono[OF ext n1] .
    show ?thesis
    proof (cases r1)
      case (Inl e)
      with Cons.prems f Inr n1 n2 show ?thesis by simp
    next
      case (Inr st1)
      with Cons.prems f \<open>resolve_field ft = Inr r\<close> n1
      have "fields_loop rec env fs st1 (lines @ [field_line env fn r idx]) (idx + 1) = Some res"
        by simp
      from Cons.IH[OF this] show ?thesis using f \<open>resolve_field ft = Inr r\<close> n2 Inr by simp
    qed
  qed
qed

lemma parse_model_Suc_mono:
  "parse_model n env vm m name st = Some r \<Longrightarrow> parse_model (Suc n) env vm m name st = Some r"
proof (induction n arbitrary: m name st r)
  case 0
  then show ?case by simp
next
  case (Suc n)
  show ?case
  proof (cases "m \<in> cells st vm")
    case True
    with Suc.prems show ?thesis by simp
  next
    case False
    let ?st1 = "st\<lparr>cells := (cells st)(vm := insert m (cells st vm))\<rparr>"
    from Suc.prems False obtain res where
      l1: "fields_loop (parse_model n env vm) env (get_model_fields (env m)) ?st1 [] 1 = Some res"
      by (auto split: option.splits)
    have l2: "fields_loop (parse_model (Suc n) env vm) env (get_model_fields (env m)) ?st1 [] 1 = Some res"
      by (rule fields_loop_mono[OF _ l1]) (rule Suc.IH)
    have "parse_model (Suc (Suc n)) env vm m name st =
      (case fields_loop (parse_model (Suc n) env vm) env (get_model_fields (env m)) ?st1 [] 1 of
           None \<Rightarrow> None
         | Some (Inl e) \<Rightarrow> Some (Inl e)
         | Some (Inr (st', lines, idx)) \<Rightarrow>
             Some (Inr (st'\<lparr>proto_messages :=
                          proto_messages st' @ [build_message name lines]\<rparr>)))"
      using False by (subst parse_model.simps) simp
    also have "\<dots> = parse_model (Suc n) env vm m name st"
      using False l1 l2 by simp
    finally show ?thesis using Suc.prems by simp
  qed
qed

lemma parse_model_add_mono:
  "parse_model n env vm m name st = Some r \<Longrightarrow> parse_model (n + k) env vm m name st = Some r"
proof (induction k)
  case 0
  then show ?case by simp
next
  case (Suc k)
  from Suc.IH[OF Suc.prems] have "parse_model (Suc (n + k)) env vm m name st = Some r"
    by (rule parse_model_Suc_mono)
  then show ?case by (simp only: add_Suc_right)
qed

lemma parse_model_mono:
  "parse_model n env vm m name st = Some r \<Longrightarrow> n \<le> n' \<Longrightarrow> parse_model n' env vm m name st = Some r"
  using parse_model_add_mono[of n env vm m name st r "n' - n"] by simp

lemma models_loop_mono:
  "models_loop n env vm ms st = Some r \<Longrightarrow> n \<le> n' \<Longrightarrow> models_loop n' env vm ms st = Some r"
proof (induction ms arbitrary: st)
  case Nil
  then show ?case by simp
next
  case (Cons m ms)
  from Cons.prems obtain r1 where p: "parse_model n env vm m (dunder_name (env m)) st = Some r1"
    by (auto split: option.splits)
  have p': "parse_model n' env vm m (dunder_name (env m)) st = Some r1"
    using parse_model_mono[OF p Cons.prems(2)] .
  show ?case
  proof (cases r1)
    case (Inl e)
    with Cons.prems p p' show ?thesis by auto
  next
    case (Inr st1)
    with Cons.prems p have "models_loop n env vm ms st1 = Some r" by simp
    from Cons.IH[OF this Cons.prems(2)] show ?thesis using p' Inr by simp
  qed
qed

lemma pydantic_models_to_protos_mono:
  "pydantic_models_to_protos n env ms av hp = Some r \<Longrightarrow> n \<le> n' \<Longrightarrow>
   pydantic_models_to_protos n' env ms av hp = Some r"
proof -
  assume a: "pydantic_models_to_protos n env ms av hp = Some r" and le: "n \<le> n'"
  obtain vm hp1 where o: "or_set av hp = (vm, hp1)" by (cases "or_set av hp")
  from a o obtain r1 where
    m: "models_loop n env vm ms \<lparr>cells = objs hp1, proto_messages = []\<rparr> = Some r1"
    by (auto simp: pydantic_models_to_protos_def split: option.splits)
  have m': "models_loop n' env vm ms \<lparr>cells = objs hp1, proto_messages = []\<rparr> = Some r1"
    using models_loop_mono[OF m le] .
  show ?thesis using a o m m' by (simp add: pydantic_models_to_protos_def)
qed

section \<open>Termination on finite type graphs\<close>

lemma card_unvisited_mono:
  "finite U \<Longrightarrow> V \<subseteq> V' \<Longrightarrow> card (U - V') \<le> card (U - V)"
  by (rule card_mono) auto

lemma card_unvisited_insert:
  "finite U \<Longrightarrow> m \<in> U \<Longrightarrow> m \<notin> V \<Longrightarrow> card (U - insert m V) < card (U - V)"
  by (rule psubset_card_mono) auto

lemma parse_nested_terminates:
  assumes rec: "rec_total env vm U n rec"
    and sub: "set (nested_of env ft) \<subseteq> U" and r: "resolve_field ft = Inr r"
    and c: "card (U - cells st vm) < n"
  shows "\<exists>res. parse_nested rec env (nested_type r) st = Some res \<and>
          (\<forall>st'. res = Inr st' \<longrightarrow> cells st vm \<subseteq> cells st' vm)"
proof (cases "is_model env (nested_type r)")
  case True
  then obtain h where h: "nested_type r = PClass h" using is_model_class by blast
  with True sub r have "h \<in> U" by (simp add: nested_of_def)
  with rec c show ?thesis using True h
    unfolding rec_total_def by (simp add: parse_nested_def type_name_def)
next
  case False
  then show ?thesis by (simp add: parse_nested_def)
qed

lemma fields_loop_terminates:
  assumes rec: "rec_total env vm U n rec"
    and fin: "finite U"
  shows "(\<forall>f \<in> set fs. set (nested_of env (snd f)) \<subseteq> U) \<Longrightarrow> card (U - cells st vm) < n \<Longrightarrow>
         \<exists>res. fields_loop rec env fs st lines idx = Some res \<and>
           (\<forall>st' l i. res = Inr (st', l, i) \<longrightarrow> cells st vm \<subseteq> cells st' vm)"
proof (induction fs arbitrary: st lines idx)
  case Nil
  then show ?case by simp
next
  case (Cons f fs)
  obtain fn ft where f: "f = (fn, ft)" by (cases f)
  show ?case
  proof (cases "resolve_field ft")
    case (Inl e)
    then show ?thesis using f by simp
  next
    case (Inr r)
    have sub: "set (nested_of env ft) \<subseteq> U" using Cons.prems(1) f by simp
    from parse_nested_terminates[OF rec sub Inr Cons.prems(2)] obtain res1 where
      n1: "parse_nested rec env (nested_type r) st = Some res1"
      and m1: "\<forall>st'. res1 = Inr st' \<longrightarrow> cells st vm \<subseteq> cells st' vm" by blast
    show ?thesis
    proof (cases res1)
      case (Inl e)
      then show ?thesis using f Inr n1 by simp
    next
      case (Inr st1)
      with m1 have mono: "cells st vm \<subseteq> cells st1 vm" by simp
      have "card (U - cells st1 vm) < n"
        using card_unvisited_mono[OF fin mono] Cons.prems(2) by simp
      moreover have "\<forall>f \<in> set fs. set (nested_of env (snd f)) \<subseteq> U" using Cons.prems(1) by simp
      ultimately obtain res where
        l: "fields_loop rec env fs st1 (lines @ [field_line env fn r idx]) (idx + 1) = Some res"
        and m2: "\<forall>st' l i. res = Inr (st', l, i) \<longrightarrow> cells st1 vm \<subseteq> cells st' vm"
        using Cons.IH by blast
      have "fields_loop rec env (f # fs) st lines idx = Some res"
        using f \<open>resolve_field ft = Inr r\<close> n1 Inr l by simp
      moreover have "\<forall>st' l i. res = Inr (st', l, i) \<longrightarrow> cells st vm \<subseteq> cells st' vm"
        using m2 mono by blast
      ultimately show ?thesis by blast
    qed
  qed
qed

lemma parse_model_terminates:
  assumes fin: "finite U" and closed: "\<forall>h \<in> U. set (nested_models env h) \<subseteq> U"
  shows "m \<in> U \<Longrightarrow> card (U - cells st vm) < n \<Longrightarrow>
         \<exists>r. parse_model n env vm m name st = Some r \<and>
             (\<forall>st'. r = Inr st' \<longrightarrow> cells st vm \<subseteq> cells st' vm)"
proof (induction n arbitrary: m name st)
  case 0
  then show ?case by simp
next
  case (Suc n)
  show ?case
  proof (cases "m \<in> cells st vm")
    case True
    then show ?thesis by simp
  next
    case False
    let ?st1 = "st\<lparr>cells := (cells st)(vm := insert m (cells st vm))\<rparr>"
    have v1: "cells ?st1 vm = insert m (cells st vm)" by simp
    have c1: "card (U - cells ?st1 vm) < n"
      using card_unvisited_insert[OF fin Suc.prems(1) False] Suc.prems(2) by simp
    have fs: "\<forall>f \<in> set (get_model_fields (env m)). set (nested_of env (snd f)) \<subseteq> U"
      using closed Suc.prems(1) by (fastforce simp: nested_models_def)
    have rec: "rec_total env vm U n (parse_model n env vm)"
      unfolding rec_total_def using Suc.IH by blast
    from fields_loop_terminates[OF rec fin fs c1]
    obtain res where
      l: "fields_loop (parse_model n env vm) env (get_model_fields (env m)) ?st1 [] 1 = Some res"
      and mono: "\<forall>st' l i. res = Inr (st', l, i) \<longrightarrow> cells ?st1 vm \<subseteq> cells st' vm"
      by blast
    show ?thesis
    proof (cases res)
      case (Inl e)
      then show ?thesis using False l by simp
    next
      case (Inr x)
      obtain st2 ls i where x: "x = (st2, ls, i)" by (cases x)
      with mono Inr have "cells st vm \<subseteq> cells st2 vm" by auto
      then show ?thesis using False l Inr x by simp
    qed
  qed
qed

lemma models_loop_terminates:
  assumes fin: "finite U" and closed: "\<forall>h \<in> U. set (nested_models env h) \<subseteq> U"
  shows "set ms \<subseteq> U \<Longrightarrow> card (U - cells st vm) < n \<Longrightarrow> \<exists>r. models_loop n env vm ms st = Some r"
proof (induction ms arbitrary: st)
  case Nil
  then show ?case by simp
next
  case (Cons m ms)
  from Cons.prems have m: "m \<in> U" by simp
  from parse_model_terminates[OF fin closed m Cons.prems(2)] obtain r1 where
    p: "parse_model n env vm m (dunder_name (env m)) st = Some r1"
    and mono: "\<forall>st'. r1 = Inr st' \<longrightarrow> cells st vm \<subseteq> cells st' vm" by blast
  show ?case
  proof (cases r1)
    case (Inl e)
    then show ?thesis using p by simp
  next
    case (Inr st1)
    with mono have "cells st vm \<subseteq> cells st1 vm" by simp
    then have "card (U - cells st1 vm) < n"
      using card_unvisited_mono[OF fin] Cons.prems(2) by (meson le_less_trans)
    with Cons.IH Cons.prems(1) obtain r where "models_loop n env vm ms st1 = Some r" by auto
    then show ?thesis using p Inr by simp
  qed
qed

lemma pydantic_models_to_protos_terminates:
  assumes fin: "finite U" and closed: "\<forall>h \<in> U. set (nested_models env h) \<subseteq> U"
    and ms: "set ms \<subseteq> U" and n: "card U < n"
  shows "\<exists>r. pydantic_models_to_protos n env ms av hp = Some r"
proof -
  obtain vm hp1 where o: "or_set av hp = (vm, hp1)" by (cases "or_set av hp")
  have "card (U - objs hp1 vm) \<le> card U" using fin by (simp add: card_mono)
  with n have "card (U - cells \<lparr>cells = objs hp1, proto_messages = []\<rparr> vm) < n" by simp
  from models_loop_terminates[OF fin closed ms this] obtain r1 where
    "models_loop n env vm ms \<lparr>cells = objs hp1, proto_messages = []\<rparr> = Some r1" by blast
  then show ?thesis using o by (cases r1) (auto simp: pydantic_models_to_protos_def)
qed

section \<open>Runs of the orchestrator\<close>

lemma models_loop_emitted:
  "models_loop n env vm ms st = Some (Inr st') \<Longrightarrow>
   \<exists>hs. emitted env vm st st' hs \<and> set ms \<subseteq> cells st' vm"
proof (induction ms arbitrary: st)
  case Nil
  then show ?case by (auto intro: emitted_refl)
next
  case (Cons m ms)
  from Cons.prems obtain st1 where
    p: "parse_model n env vm m (dunder_name (env m)) st = Some (Inr st1)"
    and rest: "models_loop n env vm ms st1 = Some (Inr st')"
    by (auto split: option.splits sum.splits)
  from parse_model_emitted[OF p] obtain hs1 where
    e1: "emitted env vm st st1 hs1" and m1: "m \<in> cells st1 vm" by blast
  from Cons.IH[OF rest] obtain hs2 where
    e2: "emitted env vm st1 st' hs2" and m2: "set ms \<subseteq> cells st' vm" by blast
  have "cells st1 vm \<subseteq> cells st' vm" using emitted_visited[OF e2] by simp
  with m1 m2 have "set (m # ms) \<subseteq> cells st' vm" by auto
  with emitted_trans[OF e1 e2] show ?case by blast
qed

lemma or_set_initial:
  "or_set av hp = (vm, hp1) \<Longrightarrow> objs hp1 vm = initial_visited av hp"
  by (auto simp: or_set_def new_set_def initial_visited_def split: option.splits if_splits)

lemma emitted_messages:
  assumes "emitted env vm st st' hs" "proto_messages st = []"
  shows "map (message_text env) hs = map Some (proto_messages st')"
  using assms by (simp add: emitted_def)

text \<open>The shape of every successful run of the orchestrator.\<close>

lemma pydantic_models_to_protos_emitted:
  assumes "pydantic_models_to_protos n env ms av hp = Some (Inr (text, hp'))"
  shows "\<exists>hs msgs vm hp1. or_set av hp = (vm, hp1) \<and> distinct hs \<and>
           set hs \<inter> initial_visited av hp = {} \<and>
           objs hp' = (objs hp1)(vm := initial_visited av hp \<union> set hs) \<and>
           next_ref hp' = next_ref hp1 \<and> set ms \<subseteq> objs hp' vm \<and>
           map (message_text env) hs = map Some msgs \<and> text = join NL (rev msgs)"
proof -
  obtain vm hp1 where o: "or_set av hp = (vm, hp1)" by (cases "or_set av hp")
  let ?st0 = "\<lparr>cells = objs hp1, proto_messages = []\<rparr>"
  from assms o obtain st where
    m: "models_loop n env vm ms ?st0 = Some (Inr st)"
    and t: "text = join NL (rev (proto_messages st))" and h: "hp' = hp1\<lparr>objs := cells st\<rparr>"
    by (auto simp: pydantic_models_to_protos_def split: option.splits sum.splits)
  from models_loop_emitted[OF m] obtain hs where
    e: "emitted env vm ?st0 st hs" and v: "set ms \<subseteq> cells st vm" by blast
  have iv: "cells ?st0 vm = initial_visited av hp" using or_set_initial[OF o] by simp
  have "distinct hs" "set hs \<inter> initial_visited av hp = {}"
    "cells st = (objs hp1)(vm := initial_visited av hp \<union> set hs)"
    using e iv by (simp_all add: emitted_def)
  moreover have "map (message_text env) hs = map Some (proto_messages st)"
    using emitted_messages[OF e] by simp
  ultimately show ?thesis using o t h v by auto
qed

lemma join_mem:
  "x \<in> set xs \<Longrightarrow> \<exists>pre post. join sep xs = pre @ x @ post"
proof (induction sep xs rule: join.induct)
  case (1 sep)
  then show ?case by simp
next
  case (2 sep y)
  then have "join sep [y] = [] @ x @ []" by simp
  then show ?case by blast
next
  case (3 sep y z zs)
  show ?case
  proof (cases "x = y")
    case True
    then have "join sep (y # z # zs) = [] @ x @ (sep @ join sep (z # zs))" by simp
    then show ?thesis by blast
  next
    case False
    with 3 obtain pre post where "join sep (z # zs) = pre @ x @ post" by auto
    then have "join sep (y # z # zs) = (y @ sep @ pre) @ x @ post" by simp
    then show ?thesis by blast
  qed
qed

lemma join_Cons: "xs \<noteq> [] \<Longrightarrow> join sep (x # xs) = x @ sep @ join sep xs"
  by (cases xs) simp_all

lemma nested_type_name_model:
  "is_model env (PClass h) \<Longrightarrow> nested_type_name env (PClass h) = dunder_name (env h)"
  by (simp add: nested_type_name_def type_name_def)

lemma nested_type_name_map_type: "nested_type_name env t = map_type env t"
  by (auto simp: nested_type_name_def map_type_def is_model_def)

lemma emitted_nil_messages:
  "emitted env vm st st' [] \<Longrightarrow> proto_messages st' = proto_messages st"
  by (simp add: emitted_def inj_map_eq_map[OF inj_Some])

lemma map_Some_snoc:
  assumes "map f (hs @ [h]) = map Some ms"
  shows "\<exists>ms' m. ms = ms' @ [m] \<and> map f hs = map Some ms' \<and> f h = Some m"
proof (cases ms rule: rev_cases)
  case Nil
  with assms show ?thesis by simp
next
  case (snoc ms' m)
  with assms show ?thesis by simp
qed

lemma map_Some_mem:
  "map f hs = map Some ms \<Longrightarrow> h \<in> set hs \<Longrightarrow> \<exists>m. f h = Some m \<and> m \<in> set ms"
proof (induction hs arbitrary: ms)
  case Nil
  then show ?case by simp
next
  case (Cons a hs)
  then obtain m ms' where "ms = m # ms'" by (cases ms) auto
  with Cons show ?case by auto
qed

section \<open>A run stays within the type graph\<close>

lemma parse_nested_within:
  assumes rec: "rec_within env vm U rec"
    and sub: "set (nested_of env ft) \<subseteq> U" and r: "resolve_field ft = Inr r"
    and run: "parse_nested rec env (nested_type r) st = Some (Inr st')"
  shows "cells st' vm \<subseteq> cells st vm \<union> U"
proof (cases "is_model env (nested_type r)")
  case True
  then obtain h where h: "nested_type r = PClass h" using is_model_class by blast
  with True sub r have "h \<in> U" by (simp add: nested_of_def)
  moreover from run True h have "rec h (dunder_name (env h)) st = Some (Inr st')"
    by (simp add: parse_nested_def type_name_def)
  ultimately show ?thesis using rec unfolding rec_within_def by blast
next
  case False
  with run show ?thesis by (simp add: parse_nested_def)
qed

lemma fields_loop_within:
  assumes rec: "rec_within env vm U rec"
  shows "(\<forall>f \<in> set fs. set (nested_of env (snd f)) \<subseteq> U) \<Longrightarrow>
         fields_loop rec env fs st lines idx = Some (Inr (st', lines', idx')) \<Longrightarrow>
         cells st' vm \<subseteq> cells st vm \<union> U"
proof (induction fs arbitrary: st lines idx)
  case Nil
  then show ?case by simp
next
  case (Cons f fs)
  obtain fn ft where f: "f = (fn, ft)" by (cases f)
  from Cons.prems(2) f obtain r st1 where r: "resolve_field ft = Inr r"
    and nested: "parse_nested rec env (nested_type r) st = Some (Inr st1)"
    and rest: "fields_loop rec env fs st1 (lines @ [field_line env fn r idx]) (idx + 1) = Some (Inr (st', lines', idx'))"
    by (auto split: sum.splits option.splits)
  have sub: "set (nested_of env ft) \<subseteq> U" using Cons.prems(1) f by simp
  have 1: "cells st1 vm \<subseteq> cells st vm \<union> U" using parse_nested_within[OF rec sub r nested] .
  have "\<forall>f \<in> set fs. set (nested_of env (snd f)) \<subseteq> U" using Cons.prems(1) by simp
  from Cons.IH[OF this rest] have "cells st' vm \<subseteq> cells st1 vm \<union> U" .
  with 1 show ?case by blast
qed

lemma parse_model_within:
  assumes closed: "\<forall>h \<in> U. set (nested_models env h) \<subseteq> U"
  shows "m \<in> U \<Longrightarrow> parse_model n env vm m name st = Some (Inr st') \<Longrightarrow>
         cells st' vm \<subseteq> cells st vm \<union> U"
proof (induction n arbitrary: m name st st')
  case 0
  then show ?case by simp
next
  case (Suc n)
  show ?case
  proof (cases "m \<in> cells st vm")
    case True
    with Suc.prems show ?thesis by simp
  next
    case False
    let ?st1 = "st\<lparr>cells := (cells st)(vm := insert m (cells st vm))\<rparr>"
    from Suc.prems(2) False obtain st2 ls idx' where
      loop: "fields_loop (parse_model n env vm) env (get_model_fields (env m)) ?st1 [] 1 = Some (Inr (st2, ls, idx'))"
      and st': "st' = st2\<lparr>proto_messages := proto_messages st2 @ [build_message name ls]\<rparr>"
      by (auto split: option.splits sum.splits)
    have rec: "rec_within env vm U (parse_model n env vm)"
      unfolding rec_within_def using Suc.IH by blast
    have fs: "\<forall>f \<in> set (get_model_fields (env m)). set (nested_of env (snd f)) \<subseteq> U"
      using closed Suc.prems(1) by (fastforce simp: nested_models_def)
    from fields_loop_within[OF rec fs loop] have "cells st2 vm \<subseteq> cells ?st1 vm \<union> U" .
    with Suc.prems(1) st' show ?thesis by auto
  qed
qed

lemma models_loop_within:
  assumes closed: "\<forall>h \<in> U. set (nested_models env h) \<subseteq> U"
  shows "set ms \<subseteq> U \<Longrightarrow> models_loop n env vm ms st = Some (Inr st') \<Longrightarrow>
         cells st' vm \<subseteq> cells st vm \<union> U"
proof (induction ms arbitrary: st)
  case Nil
  then show ?case by simp
next
  case (Cons m ms)
  from Cons.prems(2) obtain st1 where
    p: "parse_model n env vm m (dunder_name (env m)) st = Some (Inr st1)"
    and rest: "models_loop n env vm ms st1 = Some (Inr st')"
    by (auto split: option.splits sum.splits)
  from Cons.prems(1) have m: "m \<in> U" and ms: "set ms \<subseteq> U" by simp_all
  from parse_model_within[OF closed m p] have 1: "cells st1 vm \<subseteq> cells st vm \<union> U" .
  from Cons.IH[OF ms rest] have "cells st' vm \<subseteq> cells st1 vm \<union> U" .
  with 1 show ?case by blast
qed

text \<open>A successful run emits classes of the type graph only.\<close>

lemma pydantic_models_to_protos_within:
  assumes closed: "\<forall>h \<in> U. set (nested_models env h) \<subseteq> U" and ms: "set ms \<subseteq> U"
    and run: "pydantic_models_to_protos n env ms av hp = Some (Inr (text, hp'))"
  shows "\<exists>hs msgs. distinct hs \<and> set hs \<inter> initial_visited av hp = {} \<and> set hs \<subseteq> U \<and>
           set ms \<subseteq> initial_visited av hp \<union> set hs \<and>
           map (message_text env) hs = map Some msgs \<and> text = join NL (rev msgs)"
proof -
  obtain vm hp1 where o: "or_set av hp = (vm, hp1)" by (cases "or_set av hp")
  let ?st0 = "\<lparr>cells = objs hp1, proto_messages = []\<rparr>"
  from run o obtain st where
    m: "models_loop n env vm ms ?st0 = Some (Inr st)"
    and t: "text = join NL (rev (proto_messages st))"
    by (auto simp: pydantic_models_to_protos_def split: option.splits sum.splits)
  from models_loop_emitted[OF m] obtain hs where
    e: "emitted env vm ?st0 st hs" and v: "set ms \<subseteq> cells st vm" by blast
  have iv: "cells ?st0 vm = initial_visited av hp" using or_set_initial[OF o] by simp
  have c: "cells st vm = initial_visited av hp \<union> set hs" using emitted_visited[OF e] iv by simp
  have d: "distinct hs" and i: "set hs \<inter> initial_visited av hp = {}"
    using e iv by (simp_all add: emitted_def)
  from models_loop_within[OF closed ms m] have "cells st vm \<subseteq> initial_visited av hp \<union> U"
    using iv by simp
  with c i have u: "set hs \<subseteq> U" by blast
  have "map (message_text env) hs = map Some (proto_messages st)"
    using emitted_messages[OF e] by simp
  with d i u v c t show ?thesis by blast
qed

lemma nested_of_self:
  assumes "nested_of env ft = [m]" "resolve_field ft = Inr r"
  shows "nested_type r = PClass m \<and> nested_type_name env (nested_type r) = dunder_name (env m)"
proof -
  from assms have im: "is_model env (nested_type r)"
    by (auto simp: nested_of_def split: if_splits)
  then obtain h where h: "nested_type r = PClass h" using is_model_class by blast
  with assms im have "h = m" by (simp add: nested_of_def)
  with h im show ?thesis by (simp add: nested_type_name_def type_name_def)
qed

lemma message_text_lines:
  assumes "message_text env m = Some msg"
  shows "\<exists>lines. msg = build_message (dunder_name (env m)) lines \<and>
           length lines = length (get_model_fields (env m)) \<and>
           (\<forall>i<length lines. \<exists>r.
               resolve_field (snd (get_model_fields (env m) ! i)) = Inr r \<and>
               lines ! i = field_line env (fst (get_model_fields (env m) ! i)) r (Suc i))"
proof -
  from assms obtain ls where r: "render_fields env (get_model_fields (env m)) 1 = Inr ls"
    and msg: "msg = build_message (dunder_name (env m)) ls"
    by (auto simp: message_text_def split: sum.splits)
  from render_fields_nth[OF r] have "length ls = length (get_model_fields (env m))"
    "\<forall>i<length ls. \<exists>r.
               resolve_field (snd (get_model_fields (env m) ! i)) = Inr r \<and>
               ls ! i = field_line env (fst (get_model_fields (env m) ! i)) r (Suc i)"
    by auto
  with msg show ?thesis by blast
qed

lemma self_reference_one_message:
  assumes closed: "set (nested_models env m) \<subseteq> {m}"
    and new: "m \<notin> initial_visited av hp"
    and run: "pydantic_models_to_protos fuel env [m] av hp = Some (Inr (text, hp'))"
  shows "\<exists>lines. text = build_message (dunder_name (env m)) lines \<and>
           length lines = length (get_model_fields (env m)) \<and>
           (\<forall>i<length lines. nested_of env (snd (get_model_fields (env m) ! i)) = [m] \<longrightarrow>
              (\<exists>r. resolve_field (snd (get_model_fields (env m) ! i)) = Inr r \<and>
                   nested_type r = PClass m \<and>
                   nested_type_name env (nested_type r) = dunder_name (env m) \<and>
                   lines ! i = field_line env (fst (get_model_fields (env m) ! i)) r (Suc i)))"
proof -
  have c: "\<forall>h \<in> {m}. set (nested_models env h) \<subseteq> {m}" using closed by simp
  have s: "set [m] \<subseteq> {m}" by simp
  from pydantic_models_to_protos_within[OF c s run] obtain hs msgs where
    d: "distinct hs" and u: "set hs \<subseteq> {m}" and v: "set [m] \<subseteq> initial_visited av hp \<union> set hs"
    and mt: "map (message_text env) hs = map Some msgs" and t: "text = join NL (rev msgs)"
    by blast
  from v new have "m \<in> set hs" by simp
  with u have "set hs = {m}" by auto
  have hs: "hs = [m]"
  proof (cases hs)
    case Nil
    with \<open>set hs = {m}\<close> show ?thesis by simp
  next
    case (Cons x xs)
    with \<open>set hs = {m}\<close> d have "x = m" "m \<notin> set xs" "set xs \<subseteq> {m}" by auto
    then have "xs = []" by (cases xs) auto
    with Cons \<open>x = m\<close> show ?thesis by simp
  qed
  with mt obtain msg where msgs: "msgs = [msg]" and m: "message_text env m = Some msg"
    by (cases msgs) auto
  from message_text_lines[OF m] obtain lines where
    l: "msg = build_message (dunder_name (env m)) lines"
    and len: "length lines = length (get_model_fields (env m))"
    and nth: "\<forall>i<length lines. \<exists>r.
               resolve_field (snd (get_model_fields (env m) ! i)) = Inr r \<and>
               lines ! i = field_line env (fst (get_model_fields (env m) ! i)) r (Suc i)"
    by blast
  have "\<forall>i<length lines. nested_of env (snd (get_model_fields (env m) ! i)) = [m] \<longrightarrow>
              (\<exists>r. resolve_field (snd (get_model_fields (env m) ! i)) = Inr r \<and>
                   nested_type r = PClass m \<and>
                   nested_type_name env (nested_type r) = dunder_name (env m) \<and>
                   lines ! i = field_line env (fst (get_model_fields (env m) ! i)) r (Suc i))"
  proof (intro allI impI)
    fix i assume i: "i < length lines"
      and n: "nested_of env (snd (get_model_fields (env m) ! i)) = [m]"
    from nth i obtain r where r: "resolve_field (snd (get_model_fields (env m) ! i)) = Inr r"
      and li: "lines ! i = field_line env (fst (get_model_fields (env m) ! i)) r (Suc i)" by blast
    from nested_of_self[OF n r] r li
    show "\<exists>r. resolve_field (snd (get_model_fields (env m) ! i)) = Inr r \<and>
                   nested_type r = PClass m \<and>
                   nested_type_name env (nested_type r) = dunder_name (env m) \<and>
                   lines ! i = field_line env (fst (get_model_fields (env m) ! i)) r (Suc i)"
      by blast
  qed
  moreover have "text = msg" using t msgs by simp
  ultimately show ?thesis using l len by blast
qed

lemma terminates_uniformly:
  assumes fin: "finite U" and closed: "\<forall>h \<in> U. set (nested_models env h) \<subseteq> U"
    and ms: "set ms \<subseteq> U"
  shows "\<exists>r. \<forall>fuel>card U. pydantic_models_to_protos fuel env ms av hp = Some r"
proof -
  have "card U < Suc (card U)" by simp
  from pydantic_models_to_protos_terminates[OF fin closed ms this] obtain r where
    r: "pydantic_models_to_protos (Suc (card U)) env ms av hp = Some r" by blast
  have "\<forall>fuel>card U. pydantic_models_to_protos fuel env ms av hp = Some r"
  proof (intro allI impI)
    fix fuel assume "card U < fuel"
    then have "Suc (card U) \<le> fuel" by simp
    from pydantic_models_to_protos_mono[OF r this]
    show "pydantic_models_to_protos fuel env ms av hp = Some r" .
  qed
  then show ?thesis by blast
qed

lemma resolve_field_dict:
  "resolve_field (PAlias ODict (Some [key_type, value_type])) = Inr (MapField key_type value_type)"
  by (simp add: resolve_field_def getattr_origin_def dunder_args_def)

lemma key_type_name_table:
  "key_type_name key_type =
     (if key_type = PInt then ''int32'' else if key_type = PFloat then ''float''
      else if key_type = PBool then ''bool'' else ''string'')"
  by (simp add: key_type_name_def)

section \<open>The decimal rendering of an index determines it\<close>

lemma digit_char_inj:
  assumes "a < 10" "b < 10" "digit_char a = digit_char b"
  shows "a = b"
proof -
  have d: "distinct ''0123456789''" by simp
  have l: "length ''0123456789'' = 10" by simp
  from assms l have "a < length ''0123456789''" "b < length ''0123456789''" by simp_all
  with d assms(3) show ?thesis
    unfolding digit_char_def by (simp only: nth_eq_iff_index_eq)
qed

lemma str_nat_small: "n < 10 \<Longrightarrow> str_nat n = [digit_char n]"
  by (subst str_nat.simps) simp

lemma str_nat_large:
  "\<not> n < 10 \<Longrightarrow> str_nat n = str_nat (n div 10) @ [digit_char (n mod 10)]"
  by (subst str_nat.simps) simp

lemma str_nat_large_length: "\<not> n < 10 \<Longrightarrow> 2 \<le> length (str_nat n)"
proof -
  assume n: "\<not> n < 10"
  have "str_nat (n div 10) \<noteq> []" by (rule str_nat_nonempty)
  then have "1 \<le> length (str_nat (n div 10))" by (cases "str_nat (n div 10)") simp_all
  then show ?thesis using str_nat_large[OF n] by simp
qed

lemma str_nat_inj_aux: "str_nat a = str_nat b \<Longrightarrow> a = b"
proof (induction a arbitrary: b rule: str_nat.induct)
  case (1 n)
  show ?case
  proof (cases "n < 10")
    case True
    then have sn: "str_nat n = [digit_char n]" by (rule str_nat_small)
    show ?thesis
    proof (cases "b < 10")
      case b: True
      then have "str_nat b = [digit_char b]" by (rule str_nat_small)
      with sn "1.prems" have "digit_char n = digit_char b" by simp
      with True b show ?thesis by (rule digit_char_inj)
    next
      case b: False
      from str_nat_large_length[OF b] sn "1.prems" show ?thesis by simp
    qed
  next
    case False
    then have sn: "str_nat n = str_nat (n div 10) @ [digit_char (n mod 10)]"
      by (rule str_nat_large)
    show ?thesis
    proof (cases "b < 10")
      case b: True
      then have "str_nat b = [digit_char b]" by (rule str_nat_small)
      with str_nat_large_length[OF False] "1.prems" show ?thesis by simp
    next
      case b: False
      then have "str_nat b = str_nat (b div 10) @ [digit_char (b mod 10)]"
        by (rule str_nat_large)
      with sn "1.prems" have e1: "str_nat (n div 10) = str_nat (b div 10)"
        and e2: "digit_char (n mod 10) = digit_char (b mod 10)" by simp_all
      from "1.IH"[OF False e1] have d: "n div 10 = b div 10" .
      have "n mod 10 < 10" "b mod 10 < 10" by simp_all
      from digit_char_inj[OF this e2] have m: "n mod 10 = b mod 10" .
      have "n = 10 * (n div 10) + n mod 10" by simp
      also have "\<dots> = 10 * (b div 10) + b mod 10" using d m by simp
      also have "\<dots> = b" by simp
      finally show ?thesis .
    qed
  qed
qed

lemma str_nat_inj: "inj str_nat"
  by (rule injI) (rule str_nat_inj_aux)

section \<open>The claims\<close>

lemmas run_defs = pydantic_models_to_protos_def or_set_def new_set_def
    get_model_fields_def is_pydantic_model_def is_dataclass_def is_attrs_class_def is_typed_dict_def
    is_regular_class_def resolve_field_def getattr_origin_def dunder_args_def
    parse_nested_def is_model_def scalar_types_def nested_type_name_def map_type_def type_name_def
    key_type_name_def strip_def is_space_def str_nat.simps digit_char_def build_message_def
    example_env_def pydantic_class_def dataclass_class_def builtin_class_def

text \<open>
  C1. For \<open>Point\<close> with the two integer fields \<open>x\<close> and \<open>y\<close>, the claim expects each
  field line to end in a single semicolon. The source ends the field line with a semicolon
  when it formats it and adds a second one when it assembles the message, so the text
  returned for \<open>[Point]\<close> has \<open>int32 x = 1;;\<close> and \<open>int32 y = 2;;\<close>.
\<close>

theorem point_double_semicolon:
  "pydantic_models_to_protos (Suc n) example_env [0] None hp =
     Some (Inr (''message Point {'' @ NL @ ''    int32 x = 1;;'' @ NL @
                ''    int32 y = 2;;'' @ NL @ ''}'' @ NL,
                hp\<lparr>objs := (objs hp)(next_ref hp := {0}), next_ref := Suc (next_ref hp)\<rparr>))"
  by (simp add: run_defs)

text \<open>
  C2. For \<open>Node\<close> with \<open>value: int\<close> and \<open>children: Optional[List[Node]]\<close>, the claim
  expects \<open>repeated Node children = 2;\<close>. In the source the test for a list is an
  \<open>elif\<close> of the test for an optional union, so after the union is unwrapped the list is
  not looked at: the field is not repeated, \<open>List[Node]\<close> is not a model, and the field
  is rendered with the fallback \<open>string\<close> (and with two semicolons, as in C1).
\<close>

theorem node_optional_list_not_repeated:
  "pydantic_models_to_protos (Suc n) example_env [1] None hp =
     Some (Inr (''message Node {'' @ NL @ ''    int32 value = 1;;'' @ NL @
                ''    string children = 2;;'' @ NL @ ''}'' @ NL,
                hp\<lparr>objs := (objs hp)(next_ref hp := {1}), next_ref := Suc (next_ref hp)\<rparr>))"
  by (simp add: run_defs)

text \<open>
  C7. When the set passed as \<open>already_visited\<close> already holds \<open>T\<close>, the call for \<open>[T]\<close>
  returns the empty text: no message is emitted, and the heap is as it was.
\<close>

theorem revisit_yields_empty_text:
  "T \<in> objs hp a \<Longrightarrow>
   pydantic_models_to_protos (Suc n) env [T] (Some a) hp = Some (Inr ([], hp))"
  by (auto simp: pydantic_models_to_protos_def or_set_def)

theorem revisit_yields_empty_text_witness:
  "3 \<in> objs heap1 0 \<and>
   pydantic_models_to_protos (Suc 0) example_env [3] (Some 0) heap1 = Some (Inr ([], heap1))"
  using revisit_yields_empty_text [of 3 heap1 0 0 example_env] by (simp add: heap1_def)

text \<open>
  C9. The claim says that no input makes the generator raise. A field annotated with the
  bare \<open>typing.List\<close> has no \<open>__args__\<close>, and a field annotated \<open>list[()]\<close> has the empty
  tuple as \<open>__args__\<close>: the list branch reads \<open>field_type.__args__[0]\<close> with no guard, and
  the call raises \<open>AttributeError\<close> for the first and \<open>IndexError\<close> for the second.
\<close>

theorem list_without_parameter_raises:
  "pydantic_models_to_protos (Suc n) example_env [6] None hp = Some (Inl AttributeError) \<and>
   pydantic_models_to_protos (Suc n) example_env [7] None hp = Some (Inl IndexError)"
  by (simp add: run_defs)

text \<open>
  C8. The scalar mapper has exactly the table integer to \<open>int32\<close>, floating point to
  \<open>float\<close>, string to \<open>string\<close>, boolean to \<open>bool\<close>, byte sequence to \<open>bytes\<close> and
  any to \<open>string\<close>, and returns \<open>string\<close> for every other object; \<open>map_type\<close> agrees
  with it on the scalars, returns \<open>string\<close> for whatever is neither a scalar nor a model,
  and returns the class's own name for a model. Both are total: they return a text for
  every object and never raise.
\<close>

theorem type_mapper_table:
  "map_scalar_type PInt = ''int32'' \<and> map_scalar_type PFloat = ''float'' \<and>
   map_scalar_type PStr = ''string'' \<and> map_scalar_type PBool = ''bool'' \<and>
   map_scalar_type PBytes = ''bytes'' \<and> map_scalar_type PAny = ''string'' \<and>
   (t1 \<in> set scalar_types \<longrightarrow> map_type env t1 = map_scalar_type t1) \<and>
   (t2 \<notin> set scalar_types \<longrightarrow> map_scalar_type t2 = ''string'') \<and>
   (t3 \<notin> set scalar_types \<and> \<not> is_model env t3 \<longrightarrow> map_type env t3 = ''string'') \<and>
   (is_model env t4 \<longrightarrow> (\<exists>h. t4 = PClass h \<and> map_type env t4 = dunder_name (env h)))"
proof -
  have a: "t2 \<notin> set scalar_types \<longrightarrow> map_scalar_type t2 = ''string''"
    by (cases t2) (simp_all add: scalar_types_def)
  have b: "is_model env t4 \<longrightarrow> (\<exists>h. t4 = PClass h \<and> map_type env t4 = dunder_name (env h))"
  proof
    assume m: "is_model env t4"
    then obtain h where "t4 = PClass h" using is_model_class by blast
    with m show "\<exists>h. t4 = PClass h \<and> map_type env t4 = dunder_name (env h)"
      by (simp add: map_type_def type_name_def scalar_types_def)
  qed
  show ?thesis using a b by (simp add: map_type_def)
qed

theorem type_mapper_table_witness:
  "PBool \<in> set scalar_types \<and> map_type example_env PBool = ''bool'' \<and>
   POther \<notin> set scalar_types \<and> map_scalar_type POther = ''string'' \<and>
   PAlias OList (Some [PInt]) \<notin> set scalar_types \<and> \<not> is_model example_env (PAlias OList (Some [PInt])) \<and>
   map_type example_env (PAlias OList (Some [PInt])) = ''string'' \<and>
   PClass 8 \<notin> set scalar_types \<and> \<not> is_model example_env (PClass 8) \<and>
   map_type example_env (PClass 8) = ''string'' \<and>
   is_model example_env (PClass 3) \<and> map_type example_env (PClass 3) = ''Item''"
  using type_mapper_table [of PBool example_env POther "PAlias OList (Some [PInt])" "PClass 3"]
    type_mapper_table [of PBool example_env POther "PClass 8" "PClass 3"]
  by (simp add: run_defs)

text \<open>
  C5. In the message that \<open>parse_model\<close> emits for a class, there is one line for each
  extracted field, in extraction order, and the line at position \<open>i\<close> (from 0) is the
  rendering of that field with the index \<open>i + 1\<close>: it ends in \<open>= i+1;\<close>, whatever the
  kind of the field (plain, repeated or map). Different indices have different decimal
  renderings, so no rendered index is used twice.
\<close>

theorem field_numbers_sequential:
  assumes run: "parse_model n env vm model message_name st = Some (Inr st')"
    and new: "model \<notin> cells st vm"
  shows "(\<exists>lines. proto_messages st' \<noteq> [] \<and>
           last (proto_messages st') = build_message message_name lines \<and>
           length lines = length (get_model_fields (env model)) \<and>
           (\<forall>i<length lines. \<exists>r body.
               resolve_field (snd (get_model_fields (env model) ! i)) = Inr r \<and>
               lines ! i = field_line env (fst (get_model_fields (env model) ! i)) r (Suc i) \<and>
               lines ! i = body @ ''= '' @ str_nat (Suc i) @ '';'')) \<and>
         inj str_nat"
proof -
  from run obtain k where n: "n = Suc k" by (cases n) auto
  let ?st1 = "st\<lparr>cells := (cells st)(vm := insert model (cells st vm))\<rparr>"
  from run new n obtain st2 ls idx' where
    loop: "fields_loop (parse_model k env vm) env (get_model_fields (env model)) ?st1 [] 1 = Some (Inr (st2, ls, idx'))"
    and st': "st' = st2\<lparr>proto_messages := proto_messages st2 @ [build_message message_name ls]\<rparr>"
    by (auto split: option.splits sum.splits)
  from fields_loop_lines[OF loop] have r: "render_fields env (get_model_fields (env model)) 1 = Inr ls"
    by simp
  from render_fields_nth[OF r] have len: "length ls = length (get_model_fields (env model))"
    and nth: "\<forall>i<length (get_model_fields (env model)). \<exists>r.
        resolve_field (snd (get_model_fields (env model) ! i)) = Inr r \<and>
        ls ! i = field_line env (fst (get_model_fields (env model) ! i)) r (1 + i)" by auto
  have "\<forall>i<length ls. \<exists>r body.
               resolve_field (snd (get_model_fields (env model) ! i)) = Inr r \<and>
               ls ! i = field_line env (fst (get_model_fields (env model) ! i)) r (Suc i) \<and>
               ls ! i = body @ ''= '' @ str_nat (Suc i) @ '';''"
  proof (intro allI impI)
    fix i assume "i < length ls"
    with len nth obtain r where r: "resolve_field (snd (get_model_fields (env model) ! i)) = Inr r"
      and l: "ls ! i = field_line env (fst (get_model_fields (env model) ! i)) r (Suc i)" by auto
    from field_line_index obtain body where
      "field_line env (fst (get_model_fields (env model) ! i)) r (Suc i) = body @ ''= '' @ str_nat (Suc i) @ '';''"
      by blast
    with r l show "\<exists>r body.
               resolve_field (snd (get_model_fields (env model) ! i)) = Inr r \<and>
               ls ! i = field_line env (fst (get_model_fields (env model) ! i)) r (Suc i) \<and>
               ls ! i = body @ ''= '' @ str_nat (Suc i) @ '';''" by auto
  qed
  with st' len have "\<exists>lines. proto_messages st' \<noteq> [] \<and>
           last (proto_messages st') = build_message message_name lines \<and>
           length lines = length (get_model_fields (env model)) \<and>
           (\<forall>i<length lines. \<exists>r body.
               resolve_field (snd (get_model_fields (env model) ! i)) = Inr r \<and>
               lines ! i = field_line env (fst (get_model_fields (env model) ! i)) r (Suc i) \<and>
               lines ! i = body @ ''= '' @ str_nat (Suc i) @ '';'')"
    by auto
  with str_nat_inj show ?thesis by (intro conjI)
qed

theorem field_numbers_sequential_witness:
  "parse_model 1 example_env 0 0 ''Point'' state0 = Some (Inr point_state) \<and>
   0 \<notin> cells state0 0 \<and>
   (\<exists>lines. proto_messages point_state \<noteq> [] \<and>
       last (proto_messages point_state) = build_message ''Point'' lines \<and>
       length lines = length (get_model_fields (example_env 0)) \<and>
       (\<forall>i<length lines. \<exists>r body.
           resolve_field (snd (get_model_fields (example_env 0) ! i)) = Inr r \<and>
           lines ! i = field_line example_env (fst (get_model_fields (example_env 0) ! i)) r (Suc i) \<and>
           lines ! i = body @ ''= '' @ str_nat (Suc i) @ '';''))"
proof -
  have run: "parse_model 1 example_env 0 0 ''Point'' state0 = Some (Inr point_state)"
    by (simp add: run_defs state0_def point_state_def)
  have new: "0 \<notin> cells state0 0" by (simp add: state0_def)
  from run new field_numbers_sequential[OF run new, THEN conjunct1] show ?thesis by (intro conjI)
qed

text \<open>
  C6. When one call is given \<open>[A, B]\<close>, neither visited before, and the loop over the fields
  of \<open>A\<close> reaches \<open>B\<close> as a nested model, the returned text starts with the message of
  \<open>A\<close> and the message of \<open>B\<close> comes later in it: the messages are joined in the reverse
  of the order in which they were appended.
\<close>

theorem top_level_before_nested:
  assumes run: "pydantic_models_to_protos fuel env [A, B] av hp = Some (Inr (text, hp'))"
    and ne: "A \<noteq> B"
    and newA: "A \<notin> initial_visited av hp"
    and newB: "B \<notin> initial_visited av hp"
    and ref: "B \<in> set (nested_models env A)"
  shows "\<exists>msgA msgB pre post.
           message_text env A = Some msgA \<and> message_text env B = Some msgB \<and>
           text = msgA @ NL @ pre @ msgB @ post"
proof -
  obtain vm hp1 where o: "or_set av hp = (vm, hp1)" by (cases "or_set av hp")
  let ?st0 = "\<lparr>cells = objs hp1, proto_messages = []\<rparr>"
  have iv: "cells ?st0 vm = initial_visited av hp" using or_set_initial[OF o] by simp
  from run o obtain st1 st2 where
    pA: "parse_model fuel env vm A (dunder_name (env A)) ?st0 = Some (Inr st1)"
    and pB: "parse_model fuel env vm B (dunder_name (env B)) st1 = Some (Inr st2)"
    and t: "text = join NL (rev (proto_messages st2))"
    by (auto simp: pydantic_models_to_protos_def split: option.splits sum.splits)
  from parse_model_emitted[OF pA] newA iv obtain hs where
    e: "emitted env vm ?st0 st1 hs" and ne_hs: "hs \<noteq> []" and last: "last hs = A"
    and nested: "set (nested_models env A) \<subseteq> cells ?st0 vm \<union> set hs"
    by auto
  have v1: "cells st1 vm = cells ?st0 vm \<union> set hs" using emitted_visited[OF e] .
  from ref nested newB iv have Bhs: "B \<in> set hs" by auto
  then have "B \<in> cells st1 vm" using v1 by simp
  with parse_model_emitted[OF pB] have "emitted env vm st1 st2 []" by auto
  then have m2: "proto_messages st2 = proto_messages st1" by (rule emitted_nil_messages)
  have "butlast hs @ [last hs] = hs" using ne_hs by simp
  then have hs: "hs = butlast hs @ [A]" using last by simp
  have "set hs = set (butlast hs) \<union> {A}"
    using arg_cong[OF hs, of set] by simp
  with Bhs ne have B': "B \<in> set (butlast hs)" by auto
  have "map (message_text env) (butlast hs @ [A]) = map Some (proto_messages st1)"
    using emitted_messages[OF e] hs by simp
  from map_Some_snoc[OF this] obtain ms' msgA where
    ms: "proto_messages st1 = ms' @ [msgA]" and ms': "map (message_text env) (butlast hs) = map Some ms'"
    and mA: "message_text env A = Some msgA" by blast
  from map_Some_mem[OF ms' B'] obtain msgB where
    mB: "message_text env B = Some msgB" and inB: "msgB \<in> set ms'" by blast
  from inB have "msgB \<in> set (rev ms')" by simp
  from join_mem[OF this] obtain pre post where j: "join NL (rev ms') = pre @ msgB @ post" by blast
  have "rev ms' \<noteq> []" using inB by auto
  then have "text = msgA @ NL @ join NL (rev ms')" using t m2 ms by (simp add: join_Cons)
  with j mA mB show ?thesis by auto
qed

theorem top_level_before_nested_witness:
  "pydantic_models_to_protos 2 example_env [2, 3] None heap0 =
     Some (Inr (''message Box {'' @ NL @ ''    map<string, Item> items = 1;;'' @ NL @ ''}'' @ NL @ NL @
                ''message Item {'' @ NL @ ''    string name = 1;;'' @ NL @ ''}'' @ NL,
                \<lparr>objs = (\<lambda>a. {})(0 := {2, 3}), next_ref = 1\<rparr>)) \<and>
   (2::nat) \<noteq> 3 \<and> 2 \<notin> initial_visited None heap0 \<and> 3 \<notin> initial_visited None heap0 \<and>
   3 \<in> set (nested_models example_env 2) \<and>
   (\<exists>msgA msgB pre post.
       message_text example_env 2 = Some msgA \<and> message_text example_env 3 = Some msgB \<and>
       ''message Box {'' @ NL @ ''    map<string, Item> items = 1;;'' @ NL @ ''}'' @ NL @ NL @
       ''message Item {'' @ NL @ ''    string name = 1;;'' @ NL @ ''}'' @ NL =
       msgA @ NL @ pre @ msgB @ post)"
proof -
  have run: "pydantic_models_to_protos 2 example_env [2, 3] None heap0 =
     Some (Inr (''message Box {'' @ NL @ ''    map<string, Item> items = 1;;'' @ NL @ ''}'' @ NL @ NL @
                ''message Item {'' @ NL @ ''    string name = 1;;'' @ NL @ ''}'' @ NL,
                \<lparr>objs = (\<lambda>a. {})(0 := {2, 3}), next_ref = 1\<rparr>))"
    by (simp add: run_defs heap0_def eval_nat_numeral insert_commute)
  have ne: "(2::nat) \<noteq> 3" by simp
  have a: "2 \<notin> initial_visited None heap0" by (simp add: initial_visited_def)
  have b: "3 \<notin> initial_visited None heap0" by (simp add: initial_visited_def)
  have r: "3 \<in> set (nested_models example_env 2)"
    by (simp add: nested_models_def nested_of_def run_defs)
  from top_level_before_nested[OF run ne a b r] run ne a b r show ?thesis by blast
qed

text \<open>
  C10. A non-empty set passed as \<open>already_visited\<close> is the very set the call works on:
  on return it holds what it held before and the classes whose messages the call emitted
  (which include every requested class not in it before), and no other set object changed.
  An empty set passed as \<open>already_visited\<close> is replaced by a new set: on return it is still
  empty, and every set object that existed before the call is unchanged.
\<close>

theorem already_visited_aliasing:
  assumes run: "pydantic_models_to_protos fuel env models (Some a) hp = Some (Inr (text, hp'))"
    and alloc: "a < next_ref hp"
  shows "(objs hp a \<noteq> {} \<longrightarrow>
            (\<exists>hs msgs. distinct hs \<and> set hs \<inter> objs hp a = {} \<and>
               objs hp' = (objs hp)(a := objs hp a \<union> set hs) \<and> next_ref hp' = next_ref hp \<and>
               set models \<subseteq> objs hp' a \<and>
               map (message_text env) hs = map Some msgs \<and> text = join NL (rev msgs))) \<and>
         (objs hp a = {} \<longrightarrow>
            objs hp' a = {} \<and> (\<forall>b<next_ref hp. objs hp' b = objs hp b))"
proof -
  from pydantic_models_to_protos_emitted[OF run] obtain hs msgs vm hp1 where
    o: "or_set (Some a) hp = (vm, hp1)" and d: "distinct hs"
    and i: "set hs \<inter> initial_visited (Some a) hp = {}"
    and c: "objs hp' = (objs hp1)(vm := initial_visited (Some a) hp \<union> set hs)"
    and n: "next_ref hp' = next_ref hp1" and v: "set models \<subseteq> objs hp' vm"
    and m: "map (message_text env) hs = map Some msgs" and t: "text = join NL (rev msgs)"
    by blast
  have iv: "initial_visited (Some a) hp = objs hp a" by (simp add: initial_visited_def)
  show ?thesis
  proof (intro conjI impI)
    assume ne: "objs hp a \<noteq> {}"
    with o have "vm = a" "hp1 = hp" by (simp_all add: or_set_def)
    with d i c n v m t iv show "\<exists>hs msgs. distinct hs \<and> set hs \<inter> objs hp a = {} \<and>
               objs hp' = (objs hp)(a := objs hp a \<union> set hs) \<and> next_ref hp' = next_ref hp \<and>
               set models \<subseteq> objs hp' a \<and>
               map (message_text env) hs = map Some msgs \<and> text = join NL (rev msgs)"
      by auto
  next
    assume e: "objs hp a = {}"
    with o have vm: "vm = next_ref hp"
      and hp1: "objs hp1 = (objs hp)(next_ref hp := {})"
      by (auto simp: or_set_def new_set_def)
    from c vm hp1 alloc e show "objs hp' a = {}" by simp
  next
    assume e: "objs hp a = {}"
    with o have vm: "vm = next_ref hp"
      and hp1: "objs hp1 = (objs hp)(next_ref hp := {})"
      by (auto simp: or_set_def new_set_def)
    from c vm hp1 show "\<forall>b<next_ref hp. objs hp' b = objs hp b" by simp
  qed
qed

theorem already_visited_aliasing_witness:
  "pydantic_models_to_protos 2 example_env [2] (Some 0) heap1 =
     Some (Inr (''message Box {'' @ NL @ ''    map<string, Item> items = 1;;'' @ NL @ ''}'' @ NL,
                \<lparr>objs = (\<lambda>a. if a = 0 then {2, 3} else {}), next_ref = 1\<rparr>)) \<and>
   0 < next_ref heap1 \<and> objs heap1 0 \<noteq> {} \<and>
   (\<exists>hs msgs. distinct hs \<and> set hs \<inter> objs heap1 0 = {} \<and>
       objs \<lparr>objs = (\<lambda>a. if a = 0 then {2, 3} else {}), next_ref = 1\<rparr> =
         (objs heap1)(0 := objs heap1 0 \<union> set hs) \<and>
       map (message_text example_env) hs = map Some msgs \<and>
       ''message Box {'' @ NL @ ''    map<string, Item> items = 1;;'' @ NL @ ''}'' @ NL =
         join NL (rev msgs)) \<and>
   pydantic_models_to_protos 2 example_env [2] (Some 0) heap2 =
     Some (Inr (''message Box {'' @ NL @ ''    map<string, Item> items = 1;;'' @ NL @ ''}'' @ NL @ NL @
                ''message Item {'' @ NL @ ''    string name = 1;;'' @ NL @ ''}'' @ NL,
                \<lparr>objs = (\<lambda>a. {})(1 := {2, 3}), next_ref = 2\<rparr>)) \<and>
   0 < next_ref heap2 \<and> objs heap2 0 = {} \<and>
   objs \<lparr>objs = (\<lambda>a. {})(1 := {2, 3}), next_ref = 2\<rparr> 0 = {}"
proof -
  have run1: "pydantic_models_to_protos 2 example_env [2] (Some 0) heap1 =
     Some (Inr (''message Box {'' @ NL @ ''    map<string, Item> items = 1;;'' @ NL @ ''}'' @ NL,
                \<lparr>objs = (\<lambda>a. if a = 0 then {2, 3} else {}), next_ref = 1\<rparr>))"
    by (auto simp add: run_defs heap1_def eval_nat_numeral fun_eq_iff)
  have run2: "pydantic_models_to_protos 2 example_env [2] (Some 0) heap2 =
     Some (Inr (''message Box {'' @ NL @ ''    map<string, Item> items = 1;;'' @ NL @ ''}'' @ NL @ NL @
                ''message Item {'' @ NL @ ''    string name = 1;;'' @ NL @ ''}'' @ NL,
                \<lparr>objs = (\<lambda>a. {})(1 := {2, 3}), next_ref = 2\<rparr>))"
    by (auto simp add: run_defs heap2_def eval_nat_numeral fun_eq_iff)
  have a1: "0 < next_ref heap1" "objs heap1 0 \<noteq> {}" by (simp_all add: heap1_def)
  have a2: "0 < next_ref heap2" "objs heap2 0 = {}" by (simp_all add: heap2_def)
  from already_visited_aliasing[OF run1 a1(1)] a1(2) have c1:
    "\<exists>hs msgs. distinct hs \<and> set hs \<inter> objs heap1 0 = {} \<and>
       objs \<lparr>objs = (\<lambda>a. if a = 0 then {2, 3} else {}), next_ref = 1\<rparr> =
         (objs heap1)(0 := objs heap1 0 \<union> set hs) \<and>
       map (message_text example_env) hs = map Some msgs \<and>
       ''message Box {'' @ NL @ ''    map<string, Item> items = 1;;'' @ NL @ ''}'' @ NL =
         join NL (rev msgs)" by blast
  from already_visited_aliasing[OF run2 a2(1)] a2(2) have c2:
    "objs \<lparr>objs = (\<lambda>a. {})(1 := {2, 3}), next_ref = 2\<rparr> 0 = {}" by blast
  from run1 run2 a1 a2 c1 c2 show ?thesis by (intro conjI)
qed

text \<open>
  C4. On every finite type graph (a finite set of classes closed under the nested models of
  their fields, cyclic or not) the call returns or raises, with one and the same result for
  every recursion bound above the number of classes. In a call that returns, the messages of
  the text are those of distinct classes, none of them visited before: a class gives at most
  one message. \<open>parse_model\<close> returns at once, with the state unchanged, for a class in
  the visited set, and otherwise runs the loop over the fields from the state in which the
  class is already in the set. A class whose only nested model is itself (a field that the
  shape analysis of the loop resolves to the class) yields exactly one message, in which
  that field is rendered with the class's own name.
\<close>

theorem visited_set_terminates_emits_once:
  assumes fin: "finite U" and closed: "\<forall>h \<in> U. set (nested_models env h) \<subseteq> U"
    and ms: "set models \<subseteq> U"
  shows "(\<exists>r. \<forall>fuel>card U. pydantic_models_to_protos fuel env models av hp = Some r) \<and>
         (\<forall>fuel text hp'.
             pydantic_models_to_protos fuel env models av hp = Some (Inr (text, hp')) \<longrightarrow>
             (\<exists>hs msgs. distinct hs \<and> set hs \<inter> initial_visited av hp = {} \<and> set hs \<subseteq> U \<and>
                 set models \<subseteq> initial_visited av hp \<union> set hs \<and>
                 map (message_text env) hs = map Some msgs \<and> text = join NL (rev msgs))) \<and>
         (\<forall>n vm m name st. m \<in> cells st vm \<longrightarrow>
             parse_model (Suc n) env vm m name st = Some (Inr st)) \<and>
         (\<forall>n vm m name st. m \<notin> cells st vm \<longrightarrow>
             parse_model (Suc n) env vm m name st =
               (case fields_loop (parse_model n env vm) env (get_model_fields (env m))
                       (st\<lparr>cells := (cells st)(vm := insert m (cells st vm))\<rparr>) [] 1 of
                  None \<Rightarrow> None
                | Some (Inl e) \<Rightarrow> Some (Inl e)
                | Some (Inr (st', lines, idx)) \<Rightarrow>
                    Some (Inr (st'\<lparr>proto_messages :=
                                 proto_messages st' @ [build_message name lines]\<rparr>)))) \<and>
         (\<forall>m fuel text hp'.
             U = {m} \<and> models = [m] \<and> m \<notin> initial_visited av hp \<and>
             pydantic_models_to_protos fuel env models av hp = Some (Inr (text, hp')) \<longrightarrow>
             (\<exists>lines. text = build_message (dunder_name (env m)) lines \<and>
                 length lines = length (get_model_fields (env m)) \<and>
                 (\<forall>i<length lines.
                     nested_of env (snd (get_model_fields (env m) ! i)) = [m] \<longrightarrow>
                     (\<exists>r. resolve_field (snd (get_model_fields (env m) ! i)) = Inr r \<and>
                          nested_type r = PClass m \<and>
                          nested_type_name env (nested_type r) = dunder_name (env m) \<and>
                          lines ! i =
                            field_line env (fst (get_model_fields (env m) ! i)) r (Suc i)))))"
proof (intro conjI)
  show "\<exists>r. \<forall>fuel>card U. pydantic_models_to_protos fuel env models av hp = Some r"
    using terminates_uniformly[OF fin closed ms] .
next
  show "\<forall>fuel text hp'.
             pydantic_models_to_protos fuel env models av hp = Some (Inr (text, hp')) \<longrightarrow>
             (\<exists>hs msgs. distinct hs \<and> set hs \<inter> initial_visited av hp = {} \<and> set hs \<subseteq> U \<and>
                 set models \<subseteq> initial_visited av hp \<union> set hs \<and>
                 map (message_text env) hs = map Some msgs \<and> text = join NL (rev msgs))"
    using pydantic_models_to_protos_within[OF closed ms] by blast
next
  show "\<forall>n vm m name st. m \<in> cells st vm \<longrightarrow>
             parse_model (Suc n) env vm m name st = Some (Inr st)"
    by simp
next
  show "\<forall>n vm m name st. m \<notin> cells st vm \<longrightarrow>
             parse_model (Suc n) env vm m name st =
               (case fields_loop (parse_model n env vm) env (get_model_fields (env m))
                       (st\<lparr>cells := (cells st)(vm := insert m (cells st vm))\<rparr>) [] 1 of
                  None \<Rightarrow> None
                | Some (Inl e) \<Rightarrow> Some (Inl e)
                | Some (Inr (st', lines, idx)) \<Rightarrow>
                    Some (Inr (st'\<lparr>proto_messages :=
                                 proto_messages st' @ [build_message name lines]\<rparr>)))"
    by simp
next
  show "\<forall>m fuel text hp'.
             U = {m} \<and> models = [m] \<and> m \<notin> initial_visited av hp \<and>
             pydantic_models_to_protos fuel env models av hp = Some (Inr (text, hp')) \<longrightarrow>
             (\<exists>lines. text = build_message (dunder_name (env m)) lines \<and>
                 length lines = length (get_model_fields (env m)) \<and>
                 (\<forall>i<length lines.
                     nested_of env (snd (get_model_fields (env m) ! i)) = [m] \<longrightarrow>
                     (\<exists>r. resolve_field (snd (get_model_fields (env m) ! i)) = Inr r \<and>
                          nested_type r = PClass m \<and>
                          nested_type_name env (nested_type r) = dunder_name (env m) \<and>
                          lines ! i =
                            field_line env (fst (get_model_fields (env m) ! i)) r (Suc i))))"
  proof -
    have "\<exists>lines. schema = build_message (dunder_name (env m)) lines \<and>
                 length lines = length (get_model_fields (env m)) \<and>
                 (\<forall>i<length lines.
                     nested_of env (snd (get_model_fields (env m) ! i)) = [m] \<longrightarrow>
                     (\<exists>r. resolve_field (snd (get_model_fields (env m) ! i)) = Inr r \<and>
                          nested_type r = PClass m \<and>
                          nested_type_name env (nested_type r) = dunder_name (env m) \<and>
                          lines ! i =
                            field_line env (fst (get_model_fields (env m) ! i)) r (Suc i)))"
      if a: "U = {m} \<and> models = [m] \<and> m \<notin> initial_visited av hp \<and>
             pydantic_models_to_protos fuel env models av hp = Some (Inr (schema, hp'))"
      for m fuel schema hp'
    proof -
      from a have c: "set (nested_models env m) \<subseteq> {m}" using closed by simp
      from a have new: "m \<notin> initial_visited av hp"
        and run: "pydantic_models_to_protos fuel env [m] av hp = Some (Inr (schema, hp'))" by auto
      from self_reference_one_message[OF c new run] show ?thesis .
    qed
    then show ?thesis by blast
  qed
qed

theorem visited_set_terminates_emits_once_witness:
  "finite {4::nat} \<and> set (nested_models example_env 4) \<subseteq> {4} \<and> set [4::nat] \<subseteq> {4} \<and>
   (\<exists>r. \<forall>fuel>card {4::nat}. pydantic_models_to_protos fuel example_env [4] None heap0 = Some r) \<and>
   pydantic_models_to_protos 2 example_env [4] None heap0 =
     Some (Inr (tree_text, \<lparr>objs = (\<lambda>a. {})(0 := {4}), next_ref = 1\<rparr>)) \<and>
   (\<exists>hs msgs. distinct hs \<and> set hs \<inter> initial_visited None heap0 = {} \<and> set hs \<subseteq> {4} \<and>
       set [4] \<subseteq> initial_visited None heap0 \<union> set hs \<and>
       map (message_text example_env) hs = map Some msgs \<and> tree_text = join NL (rev msgs)) \<and>
   4 \<in> cells tree_state 0 \<and>
   parse_model (Suc 0) example_env 0 4 ''Tree'' tree_state = Some (Inr tree_state) \<and>
   4 \<notin> cells state0 0 \<and>
   parse_model (Suc 1) example_env 0 4 ''Tree'' state0 =
     (case fields_loop (parse_model 1 example_env 0) example_env (get_model_fields (example_env 4))
             (state0\<lparr>cells := (cells state0)(0 := insert 4 (cells state0 0))\<rparr>) [] 1 of
        None \<Rightarrow> None
      | Some (Inl e) \<Rightarrow> Some (Inl e)
      | Some (Inr (st', lines, idx)) \<Rightarrow>
          Some (Inr (st'\<lparr>proto_messages := proto_messages st' @ [build_message ''Tree'' lines]\<rparr>))) \<and>
   4 \<notin> initial_visited None heap0 \<and>
   nested_of example_env (snd (get_model_fields (example_env 4) ! 1)) = [4] \<and>
   (\<exists>lines. tree_text = build_message (dunder_name (example_env 4)) lines \<and>
       length lines = length (get_model_fields (example_env 4)) \<and>
       (\<exists>r. resolve_field (snd (get_model_fields (example_env 4) ! 1)) = Inr r \<and>
            nested_type r = PClass 4 \<and>
            nested_type_name example_env (nested_type r) = dunder_name (example_env 4) \<and>
            lines ! 1 = field_line example_env (fst (get_model_fields (example_env 4) ! 1)) r (Suc 1)))"
proof -
  have fin: "finite {4::nat}" by simp
  have cl: "set (nested_models example_env 4) \<subseteq> {4}"
    by (simp add: nested_models_def nested_of_def run_defs)
  then have closed: "\<forall>h \<in> {4}. set (nested_models example_env h) \<subseteq> {4}" by simp
  have ms: "set [4::nat] \<subseteq> {4}" by simp
  note T = visited_set_terminates_emits_once[OF fin closed ms, where av = None and hp = heap0]
  have run: "pydantic_models_to_protos 2 example_env [4] None heap0 =
     Some (Inr (tree_text, \<lparr>objs = (\<lambda>a. {})(0 := {4}), next_ref = 1\<rparr>))"
    by (simp add: run_defs heap0_def tree_text_def eval_nat_numeral)
  have v: "4 \<in> cells tree_state 0" by (simp add: tree_state_def)
  have nv: "4 \<notin> cells state0 0" by (simp add: state0_def)
  have ni: "4 \<notin> initial_visited None heap0" by (simp add: initial_visited_def)
  have no: "nested_of example_env (snd (get_model_fields (example_env 4) ! 1)) = [4]"
    by (simp add: nested_of_def run_defs)
  have len: "1 < length (get_model_fields (example_env 4))" by (simp add: run_defs)
  from T have c1: "\<exists>r. \<forall>fuel>card {4::nat}.
      pydantic_models_to_protos fuel example_env [4] None heap0 = Some r" by blast
  from T run have c2: "\<exists>hs msgs. distinct hs \<and> set hs \<inter> initial_visited None heap0 = {} \<and>
       set hs \<subseteq> {4} \<and> set [4] \<subseteq> initial_visited None heap0 \<union> set hs \<and>
       map (message_text example_env) hs = map Some msgs \<and> tree_text = join NL (rev msgs)"
    by blast
  from T v have c3: "parse_model (Suc 0) example_env 0 4 ''Tree'' tree_state = Some (Inr tree_state)"
    by blast
  from T nv have c4: "parse_model (Suc 1) example_env 0 4 ''Tree'' state0 =
     (case fields_loop (parse_model 1 example_env 0) example_env (get_model_fields (example_env 4))
             (state0\<lparr>cells := (cells state0)(0 := insert 4 (cells state0 0))\<rparr>) [] 1 of
        None \<Rightarrow> None
      | Some (Inl e) \<Rightarrow> Some (Inl e)
      | Some (Inr (st', lines, idx)) \<Rightarrow>
          Some (Inr (st'\<lparr>proto_messages := proto_messages st' @ [build_message ''Tree'' lines]\<rparr>)))"
    by blast
  have pre: "{4::nat} = {4} \<and> [4::nat] = [4] \<and> 4 \<notin> initial_visited None heap0 \<and>
      pydantic_models_to_protos 2 example_env [4] None heap0 =
        Some (Inr (tree_text, \<lparr>objs = (\<lambda>a. {})(0 := {4}), next_ref = 1\<rparr>))"
    using ni run by simp
  note T5 = T[THEN conjunct2, THEN conjunct2, THEN conjunct2, THEN conjunct2]
  from T5[THEN spec, THEN spec, THEN spec, THEN spec, THEN mp, OF pre] obtain lines where
    l: "tree_text = build_message (dunder_name (example_env 4)) lines"
    and ll: "length lines = length (get_model_fields (example_env 4))"
    and li: "\<forall>i<length lines.
               nested_of example_env (snd (get_model_fields (example_env 4) ! i)) = [4] \<longrightarrow>
               (\<exists>r. resolve_field (snd (get_model_fields (example_env 4) ! i)) = Inr r \<and>
                    nested_type r = PClass 4 \<and>
                    nested_type_name example_env (nested_type r) = dunder_name (example_env 4) \<and>
                    lines ! i =
                      field_line example_env (fst (get_model_fields (example_env 4) ! i)) r (Suc i))"
    by blast
  from li len ll no have "\<exists>r. resolve_field (snd (get_model_fields (example_env 4) ! 1)) = Inr r \<and>
            nested_type r = PClass 4 \<and>
            nested_type_name example_env (nested_type r) = dunder_name (example_env 4) \<and>
            lines ! 1 = field_line example_env (fst (get_model_fields (example_env 4) ! 1)) r (Suc 1)"
    by metis
  with l ll have c5: "\<exists>lines. tree_text = build_message (dunder_name (example_env 4)) lines \<and>
       length lines = length (get_model_fields (example_env 4)) \<and>
       (\<exists>r. resolve_field (snd (get_model_fields (example_env 4) ! 1)) = Inr r \<and>
            nested_type r = PClass 4 \<and>
            nested_type_name example_env (nested_type r) = dunder_name (example_env 4) \<and>
            lines ! 1 = field_line example_env (fst (get_model_fields (example_env 4) ! 1)) r (Suc 1))"
    by blast
  from fin cl ms c1 run c2 v c3 nv c4 ni no c5 show ?thesis by (intro conjI)
qed

text \<open>
  C3, the claim as stated: a key of type bytes is said to render as \<open>bytes\<close>. The source
  consults the scalar table for the keys int, float, str and bool only, so a bytes key
  renders as \<open>string\<close>.
\<close>

theorem bytes_key_renders_string:
  "key_type_name PBytes = ''string'' \<and> map_scalar_type PBytes = ''bytes'' \<and>
   pydantic_models_to_protos 1 example_env [5] None heap0 =
     Some (Inr (''message Blobs {'' @ NL @ ''    map<string, string> data = 1;;'' @ NL @ ''}'' @ NL,
                heap0\<lparr>objs := (objs heap0)(0 := {5}), next_ref := 1\<rparr>))"
  by (simp add: run_defs heap0_def)

text \<open>
  C3, amended. For a field declared \<open>Dict[K, V]\<close> at position \<open>i\<close> of a class that
  \<open>parse_model\<close> emits: the key renders as \<open>int32\<close>, \<open>float\<close>, \<open>bool\<close> for the keys
  int, float, bool and as \<open>string\<close> for every other key (str, bytes, any and all
  non-scalars); the value renders through \<open>map_type\<close>, which for a model is the model's own
  name; the field line is \<open>map<KeyWire, ValueWire> name = i+1;\<close>, with no \<open>repeated\<close> and
  no stripping; and when \<open>V\<close> is a model it is in the visited set on return, and if it was
  not visited before (and is not the class itself) its message stands in the accumulator
  before the message of the class.
\<close>

theorem map_field_rendering:
  assumes run: "parse_model n env vm m (dunder_name (env m)) st = Some (Inr st')"
    and new: "m \<notin> cells st vm"
    and i: "i < length (get_model_fields (env m))"
    and fld: "get_model_fields (env m) ! i = (field_name, PAlias ODict (Some [key_type, value_type]))"
  shows "\<exists>lines others.
           proto_messages st' =
             proto_messages st @ others @ [build_message (dunder_name (env m)) lines] \<and>
           length lines = length (get_model_fields (env m)) \<and>
           lines ! i = ''map<'' @ key_type_name key_type @ '', '' @
                       nested_type_name env value_type @ ''> '' @ field_name @ '' = '' @
                       str_nat (Suc i) @ '';'' \<and>
           key_type_name key_type =
             (if key_type = PInt then ''int32'' else if key_type = PFloat then ''float''
              else if key_type = PBool then ''bool'' else ''string'') \<and>
           nested_type_name env value_type = map_type env value_type \<and>
           (is_model env value_type \<longrightarrow>
              (\<exists>h. value_type = PClass h \<and> map_type env value_type = dunder_name (env h) \<and>
                   h \<in> cells st' vm \<and>
                   (h \<notin> cells st vm \<and> h \<noteq> m \<longrightarrow>
                      (\<exists>msg. message_text env h = Some msg \<and> msg \<in> set others))))"
proof -
  let ?fs = "get_model_fields (env m)"
  from parse_model_emitted[OF run] new obtain hs where
    e: "emitted env vm st st' hs" and ne: "hs \<noteq> []" and last: "last hs = m"
    and nested: "set (nested_models env m) \<subseteq> cells st vm \<union> set hs"
    by auto
  have "butlast hs @ [last hs] = hs" using ne by simp
  then have hs: "hs = butlast hs @ [m]" using last by simp
  have seths: "set hs = set (butlast hs) \<union> {m}" using arg_cong[OF hs, of set] by simp
  from e have "map Some (proto_messages st') =
      map Some (proto_messages st) @ map (message_text env) hs" by (simp add: emitted_def)
  then have "map (message_text env) hs = map Some (drop (length (proto_messages st)) (proto_messages st'))"
    and tk: "take (length (proto_messages st)) (proto_messages st') = proto_messages st"
    by (metis append_eq_conv_conj length_map drop_map, metis append_eq_conv_conj length_map take_map inj_map_eq_map inj_Some)
  then have "map (message_text env) (butlast hs @ [m]) =
      map Some (drop (length (proto_messages st)) (proto_messages st'))" using hs by simp
  from map_Some_snoc[OF this] obtain others msg where
    dr: "drop (length (proto_messages st)) (proto_messages st') = others @ [msg]"
    and oth: "map (message_text env) (butlast hs) = map Some others"
    and mm: "message_text env m = Some msg" by blast
  have pm: "proto_messages st' = proto_messages st @ others @ [msg]"
    using tk dr by (metis append_take_drop_id)
  from message_text_lines[OF mm] obtain lines where
    l: "msg = build_message (dunder_name (env m)) lines"
    and len: "length lines = length ?fs"
    and nth: "\<forall>i<length lines. \<exists>r. resolve_field (snd (?fs ! i)) = Inr r \<and>
               lines ! i = field_line env (fst (?fs ! i)) r (Suc i)" by blast
  from i len have "i < length lines" by simp
  with nth obtain r where "resolve_field (snd (?fs ! i)) = Inr r"
    and "lines ! i = field_line env (fst (?fs ! i)) r (Suc i)" by blast
  with fld have li: "lines ! i = field_line env field_name (MapField key_type value_type) (Suc i)"
    by (simp add: resolve_field_dict)
  have mem: "(field_name, PAlias ODict (Some [key_type, value_type])) \<in> set ?fs"
    using i fld by (metis nth_mem)
  have model: "\<exists>h. value_type = PClass h \<and> map_type env value_type = dunder_name (env h) \<and>
                   h \<in> cells st' vm \<and>
                   (h \<notin> cells st vm \<and> h \<noteq> m \<longrightarrow>
                      (\<exists>msg. message_text env h = Some msg \<and> msg \<in> set others))"
    if im: "is_model env value_type"
  proof -
    from im obtain h where h: "value_type = PClass h" using is_model_class by blast
    have no: "nested_of env (PAlias ODict (Some [key_type, value_type])) = [h]"
      using im h by (simp add: nested_of_def resolve_field_dict)
    have "h \<in> set (nested_models env m)"
      unfolding nested_models_def using mem no by force
    with nested have hin: "h \<in> cells st vm \<union> set hs" by blast
    have v: "cells st' vm = cells st vm \<union> set hs" using emitted_visited[OF e] .
    have "\<exists>msg. message_text env h = Some msg \<and> msg \<in> set others"
      if "h \<notin> cells st vm" "h \<noteq> m"
    proof -
      from that hin seths have "h \<in> set (butlast hs)" by auto
      from map_Some_mem[OF oth this] show ?thesis .
    qed
    moreover have "map_type env value_type = dunder_name (env h)"
      using im h nested_type_name_model nested_type_name_map_type by metis
    ultimately show ?thesis using h hin v by auto
  qed
  from pm l len li model show ?thesis
    by (auto simp: key_type_name_table nested_type_name_map_type)
qed

theorem map_field_rendering_witness:
  "parse_model 2 example_env 0 2 (dunder_name (example_env 2)) state0 = Some (Inr box_state) \<and>
   2 \<notin> cells state0 0 \<and> 0 < length (get_model_fields (example_env 2)) \<and>
   get_model_fields (example_env 2) ! 0 = (''items'', PAlias ODict (Some [PStr, PClass 3])) \<and>
   is_model example_env (PClass 3) \<and> 3 \<notin> cells state0 0 \<and> (3::nat) \<noteq> 2 \<and>
   (\<exists>lines others.
       proto_messages box_state =
         proto_messages state0 @ others @ [build_message (dunder_name (example_env 2)) lines] \<and>
       lines ! 0 = ''map<'' @ key_type_name PStr @ '', '' @
                   nested_type_name example_env (PClass 3) @ ''> '' @ ''items'' @ '' = '' @
                   str_nat (Suc 0) @ '';'' \<and>
       (\<exists>h. PClass 3 = PClass h \<and> map_type example_env (PClass 3) = dunder_name (example_env h) \<and>
            h \<in> cells box_state 0 \<and>
            (\<exists>msg. message_text example_env h = Some msg \<and> msg \<in> set others)))"
proof -
  have run: "parse_model 2 example_env 0 2 (dunder_name (example_env 2)) state0 = Some (Inr box_state)"
    by (simp add: run_defs state0_def box_state_def eval_nat_numeral insert_commute)
  have new: "2 \<notin> cells state0 0" by (simp add: state0_def)
  have i: "0 < length (get_model_fields (example_env 2))" by (simp add: run_defs)
  have fld: "get_model_fields (example_env 2) ! 0 = (''items'', PAlias ODict (Some [PStr, PClass 3]))"
    by (simp add: run_defs)
  have im: "is_model example_env (PClass 3)" by (simp add: run_defs)
  have n3: "3 \<notin> cells state0 0" by (simp add: state0_def)
  have ne: "(3::nat) \<noteq> 2" by simp
  from map_field_rendering[OF run new i fld] im n3 ne
  have "\<exists>lines others.
       proto_messages box_state =
         proto_messages state0 @ others @ [build_message (dunder_name (example_env 2)) lines] \<and>
       lines ! 0 = ''map<'' @ key_type_name PStr @ '', '' @
                   nested_type_name example_env (PClass 3) @ ''> '' @ ''items'' @ '' = '' @
                   str_nat (Suc 0) @ '';'' \<and>
       (\<exists>h. PClass 3 = PClass h \<and> map_type example_env (PClass 3) = dunder_name (example_env h) \<and>
            h \<in> cells box_state 0 \<and>
            (\<exists>msg. message_text example_env h = Some msg \<and> msg \<in> set others))"
    by blast
  with run new i fld im n3 ne show ?thesis by (intro conjI)
qed

end
